theory Spec2Isabelle
  imports Main "HOL-Library.Sublist"
begin

section \<open>The skip list of skiplist.go\<close>

subsection \<open>Data model\<close>

text \<open>
  Go pointers to nodes are addresses into a store of nodes; \<open>None\<close> is Go's \<open>nil\<close>.
  The store is total (a Go pointer that is not nil always points to a node), and
  \<open>fresh\<close> is the next address the allocator hands out.
\<close>

type_synonym addr = nat

text \<open>
  Modelled from the spec: the struct \<open>node\<close> and its constructor \<open>newNode\<close> are
  declared outside skiplist.go. The fields are the ones skiplist.go reads and writes
  (\<open>key\<close>, \<open>val\<close>, \<open>nextNodes\<close>): a key, a value and one forward link per level.
\<close>

record ('k, 'v) node =
  key :: 'k
  val :: 'v
  nextNodes :: "addr option list"

definition newNode :: "'k \<Rightarrow> 'v \<Rightarrow> addr option list \<Rightarrow> ('k, 'v) node" where
  "newNode k v ns = \<lparr>key = k, val = v, nextNodes = ns\<rparr>"

text \<open>
  Modelled from the spec: \<open>KvPair\<close> and \<open>newKvPair\<close> are declared outside skiplist.go;
  a KvPair is an immutable (key, value) result.
\<close>

type_synonym ('k, 'v) KvPair = "'k \<times> 'v"

definition newKvPair :: "'k \<Rightarrow> 'v \<Rightarrow> ('k, 'v) KvPair" where
  "newKvPair k v = (k, v)"

text \<open>
  The container with the store its pointers live in. The field \<open>r\<close> of the Go struct
  is never read (\<open>randLevel\<close> draws from the global generator), so it is left out; the
  draws of the global generator are an argument of \<open>Put\<close>.
\<close>

record ('k, 'v) SkipList =
  maxLevel :: int
  head :: "addr option"
  heap :: "addr \<Rightarrow> ('k, 'v) node"
  fresh :: addr

text \<open>The two run-time panics the code can raise.\<close>

datatype error = NilPointer | IndexOutOfRange

text \<open>
  A computation either does not return (\<open>None\<close>), panics (\<open>Some (Inl e)\<close>) or
  returns a value (\<open>Some (Inr x)\<close>).
\<close>

type_synonym 'a res = "(error + 'a) option"

definition bindR :: "'a res \<Rightarrow> ('a \<Rightarrow> 'b res) \<Rightarrow> 'b res" where
  "bindR m f = (case m of None \<Rightarrow> None | Some (Inl e) \<Rightarrow> Some (Inl e) | Some (Inr x) \<Rightarrow> f x)"

definition ok :: "'a \<Rightarrow> 'a res" where
  "ok x = Some (Inr x)"

definition panic :: "error \<Rightarrow> 'a res" where
  "panic e = Some (Inl e)"

text \<open>\<open>a.nextNodes[l]\<close> for a pointer \<open>a\<close> that is not nil: the index is checked.\<close>

definition nxt :: "(addr \<Rightarrow> ('k, 'v) node) \<Rightarrow> addr \<Rightarrow> nat \<Rightarrow> error + addr option" where
  "nxt h a l = (if l < length (nextNodes (h a)) then Inr (nextNodes (h a) ! l)
                else Inl IndexOutOfRange)"

text \<open>\<open>a.nextNodes[l] = p\<close>.\<close>

definition set_nxt :: "(addr \<Rightarrow> ('k, 'v) node) \<Rightarrow> addr \<Rightarrow> nat \<Rightarrow> addr option
    \<Rightarrow> error + (addr \<Rightarrow> ('k, 'v) node)" where
  "set_nxt h a l p = (if l < length (nextNodes (h a))
     then Inr (h(a := (h a)\<lparr>nextNodes := (nextNodes (h a))[l := p]\<rparr>))
     else Inl IndexOutOfRange)"

subsection \<open>Construction and Level\<close>

text \<open>
  The zero value of the key and value types is the \<open>0\<close> of the type class \<open>zero\<close>;
  the new head is the first node of a new store.
\<close>

definition NewSkipList :: "int \<Rightarrow> ('k::zero, 'v::zero) SkipList option" where
  "NewSkipList m = (if m \<le> 0 then None
     else Some \<lparr>maxLevel = m, head = Some 0,
                heap = (\<lambda>_. \<lparr>key = 0, val = 0, nextNodes = []\<rparr>), fresh = 1\<rparr>)"

definition Level :: "('k, 'v) SkipList \<Rightarrow> nat" where
  "Level sl = (case head sl of None \<Rightarrow> 0 | Some a \<Rightarrow> length (nextNodes (heap sl a)))"

subsection \<open>The search\<close>

text \<open>
  The inner loop of \<open>get\<close>, \<open>ceil\<close>, \<open>floor\<close> and \<open>Del\<close>:
  \<open>for head.nextNodes[l] != nil && head.nextNodes[l].key < key { head = head.nextNodes[l] }\<close>.
  On a store with a cycle it does not return.
\<close>

partial_function (option) search_right ::
  "(addr \<Rightarrow> ('k::linorder, 'v) node) \<Rightarrow> nat \<Rightarrow> 'k \<Rightarrow> addr \<Rightarrow> addr res" where [code]:
  "search_right h l k a =
     (case nxt h a l of
        Inl e \<Rightarrow> Some (Inl e)
      | Inr None \<Rightarrow> Some (Inr a)
      | Inr (Some b) \<Rightarrow> if key (h b) < k then search_right h l k b else Some (Inr a))"

text \<open>
  The loop over the levels, \<open>for l := len(head.nextNodes) - 1; l >= 0; l--\<close>, with
  the argument \<open>n\<close> standing for \<open>l + 1\<close>. \<open>get\<close> returns the node with an equal
  key from inside the loop and \<open>nil\<close> after it.
\<close>

fun get_loop :: "(addr \<Rightarrow> ('k::linorder, 'v) node) \<Rightarrow> 'k \<Rightarrow> addr \<Rightarrow> nat \<Rightarrow> addr option res" where
  "get_loop h k a 0 = ok None"
| "get_loop h k a (Suc l) =
     bindR (search_right h l k a) (\<lambda>a'.
       case nxt h a' l of
         Inl e \<Rightarrow> panic e
       | Inr None \<Rightarrow> get_loop h k a' l
       | Inr (Some b) \<Rightarrow> if key (h b) = k then ok (Some b) else get_loop h k a' l)"

definition get :: "('k::linorder, 'v) SkipList \<Rightarrow> 'k \<Rightarrow> addr option res" where
  "get sl k = (if Level sl = 0 then ok None
     else case head sl of
       None \<Rightarrow> panic NilPointer
     | Some h0 \<Rightarrow> get_loop (heap sl) k h0 (length (nextNodes (heap sl h0))))"

text \<open>\<open>ceil\<close> returns \<open>head.nextNodes[0]\<close> after the loop.\<close>

fun ceil_loop :: "(addr \<Rightarrow> ('k::linorder, 'v) node) \<Rightarrow> 'k \<Rightarrow> addr \<Rightarrow> nat \<Rightarrow> addr option res" where
  "ceil_loop h k a 0 = (case nxt h a 0 of Inl e \<Rightarrow> panic e | Inr p \<Rightarrow> ok p)"
| "ceil_loop h k a (Suc l) =
     bindR (search_right h l k a) (\<lambda>a'.
       case nxt h a' l of
         Inl e \<Rightarrow> panic e
       | Inr None \<Rightarrow> ceil_loop h k a' l
       | Inr (Some b) \<Rightarrow> if key (h b) = k then ok (Some b) else ceil_loop h k a' l)"

definition ceil :: "('k::linorder, 'v) SkipList \<Rightarrow> 'k \<Rightarrow> addr option res" where
  "ceil sl target = (if Level sl = 0 then ok None
     else case head sl of
       None \<Rightarrow> panic NilPointer
     | Some h0 \<Rightarrow> ceil_loop (heap sl) target h0 (length (nextNodes (heap sl h0))))"

text \<open>\<open>floor\<close> returns \<open>head\<close> after the loop.\<close>

fun floor_loop :: "(addr \<Rightarrow> ('k::linorder, 'v) node) \<Rightarrow> 'k \<Rightarrow> addr \<Rightarrow> nat \<Rightarrow> addr option res" where
  "floor_loop h k a 0 = ok (Some a)"
| "floor_loop h k a (Suc l) =
     bindR (search_right h l k a) (\<lambda>a'.
       case nxt h a' l of
         Inl e \<Rightarrow> panic e
       | Inr None \<Rightarrow> floor_loop h k a' l
       | Inr (Some b) \<Rightarrow> if key (h b) = k then ok (Some b) else floor_loop h k a' l)"

definition floor :: "('k::linorder, 'v) SkipList \<Rightarrow> 'k \<Rightarrow> addr option res" where
  "floor sl target = (if Level sl = 0 then ok None
     else case head sl of
       None \<Rightarrow> panic NilPointer
     | Some h0 \<Rightarrow> floor_loop (heap sl) target h0 (length (nextNodes (heap sl h0))))"

subsection \<open>The queries\<close>

text \<open>\<open>Get\<close> returns \<open>(val, exist)\<close>: \<open>None\<close> is the zero value with \<open>exist = false\<close>.\<close>

definition Get :: "('k::linorder, 'v) SkipList \<Rightarrow> 'k \<Rightarrow> 'v option res" where
  "Get sl k = (if Level sl = 0 then ok None
     else bindR (get sl k) (\<lambda>n. case n of Some a \<Rightarrow> ok (Some (val (heap sl a))) | None \<Rightarrow> ok None))"

text \<open>
  \<open>Ceil\<close> and \<open>Floor\<close> return \<open>(*KvPair, bool)\<close>: \<open>None\<close> is \<open>(nil, false)\<close>,
  \<open>Some p\<close> is \<open>(p, true)\<close>.
\<close>

definition Ceil :: "('k::linorder, 'v) SkipList \<Rightarrow> 'k \<Rightarrow> ('k, 'v) KvPair option res" where
  "Ceil sl k = (if Level sl = 0 then ok None
     else bindR (ceil sl k) (\<lambda>n. case n of
         Some a \<Rightarrow> ok (Some (newKvPair (key (heap sl a)) (val (heap sl a))))
       | None \<Rightarrow> ok None))"

text \<open>
  In \<open>Floor\<close> the node that \<open>floor\<close> returns is compared with \<open>sl.head.nextNodes[0]\<close>
  and then dereferenced.
\<close>

definition Floor :: "('k::linorder, 'v) SkipList \<Rightarrow> 'k \<Rightarrow> ('k, 'v) KvPair option res" where
  "Floor sl k = (if Level sl = 0 then ok None
     else bindR (floor sl k) (\<lambda>floorNode.
       case head sl of
         None \<Rightarrow> panic NilPointer
       | Some h0 \<Rightarrow> (case nxt (heap sl) h0 0 of
           Inl e \<Rightarrow> panic e
         | Inr first \<Rightarrow>
             if floorNode \<noteq> first then
               (case floorNode of
                  None \<Rightarrow> panic NilPointer
                | Some a \<Rightarrow> ok (Some (newKvPair (key (heap sl a)) (val (heap sl a)))))
             else ok None)))"

text \<open>
  The loop of \<open>Range\<close>:
  \<open>for n := ceilingNode; n != nil && n.key <= end; n = n.nextNodes[0] { res = append(res, ...) }\<close>.
\<close>

partial_function (option) range_loop ::
  "(addr \<Rightarrow> ('k::linorder, 'v) node) \<Rightarrow> 'k \<Rightarrow> addr option \<Rightarrow> ('k, 'v) KvPair list
    \<Rightarrow> ('k, 'v) KvPair list res" where [code]:
  "range_loop h e n res =
     (case n of
        None \<Rightarrow> Some (Inr res)
      | Some a \<Rightarrow>
          if key (h a) \<le> e then
            (case nxt h a 0 of
               Inl er \<Rightarrow> Some (Inl er)
             | Inr p \<Rightarrow> range_loop h e p (res @ [newKvPair (key (h a)) (val (h a))]))
          else Some (Inr res))"

text \<open>
  \<open>Range\<close>, named \<open>Range_sl\<close> here since \<open>Range\<close> is the range of a relation in
  HOL. A nil slice and an empty slice are both the empty list.
\<close>

definition Range_sl :: "('k::linorder, 'v) SkipList \<Rightarrow> 'k \<Rightarrow> 'k \<Rightarrow> ('k, 'v) KvPair list res" where
  "Range_sl sl start endk = (if Level sl = 0 then ok []
     else bindR (ceil sl start) (\<lambda>ceilingNode.
       case ceilingNode of
         None \<Rightarrow> ok []
       | Some c \<Rightarrow> range_loop (heap sl) endk (Some c) []))"

subsection \<open>Put\<close>

text \<open>
  \<open>randLevel\<close>: \<open>for rand.Intn(2) == 0 && randL < sl.maxLevel { randL++ }\<close>. The
  argument \<open>draws\<close> gives the results of the successive calls of \<open>rand.Intn(2)\<close>,
  \<open>i\<close> counts them.
\<close>

function randLevel_loop :: "int \<Rightarrow> (nat \<Rightarrow> nat) \<Rightarrow> nat \<Rightarrow> nat \<Rightarrow> nat" where
  "randLevel_loop m draws i randL =
     (if draws i = 0 \<and> int randL < m then randLevel_loop m draws (Suc i) (Suc randL)
      else randL)"
  by pat_completeness auto
termination
  by (relation "measure (\<lambda>(m, draws, i, randL). nat (m - int randL))") auto

definition randLevel :: "('k, 'v) SkipList \<Rightarrow> (nat \<Rightarrow> nat) \<Rightarrow> nat" where
  "randLevel sl draws = randLevel_loop (maxLevel sl) draws 0 0"

text \<open>
  The loop \<open>for sl.Level()-1 < randL { sl.head.nextNodes = append(sl.head.nextNodes, nil) }\<close>.
\<close>

function grow :: "('k, 'v) SkipList \<Rightarrow> nat \<Rightarrow> error + ('k, 'v) SkipList" where
  "grow sl randL =
     (if int (Level sl) - 1 < int randL then
        (case head sl of
           None \<Rightarrow> Inl NilPointer
         | Some h0 \<Rightarrow>
             grow (sl\<lparr>heap := (heap sl)(h0 := (heap sl h0)\<lparr>nextNodes := nextNodes (heap sl h0) @ [None]\<rparr>)\<rparr>)
               randL)
      else Inr sl)"
  by pat_completeness auto
termination
  by (relation "measure (\<lambda>(sl, randL). Suc randL - Level sl)") (auto simp: Level_def)

declare grow.simps [simp del]

text \<open>
  The inner loop of \<open>Put\<close>:
  \<open>for head.nextNodes[l] != nil && head.key < key { head = head.nextNodes[l] }\<close>.
\<close>

partial_function (option) put_search_right ::
  "(addr \<Rightarrow> ('k::linorder, 'v) node) \<Rightarrow> nat \<Rightarrow> 'k \<Rightarrow> addr \<Rightarrow> addr res" where [code]:
  "put_search_right h l k a =
     (case nxt h a l of
        Inl e \<Rightarrow> Some (Inl e)
      | Inr None \<Rightarrow> Some (Inr a)
      | Inr (Some b) \<Rightarrow> if key (h a) < k then put_search_right h l k b else Some (Inr a))"

text \<open>
  The loop of \<open>Put\<close> over the levels, \<open>n\<close> being the address of the new node:
  \<open>n.nextNodes[l] = head.nextNodes[l]\<close>, then \<open>head.nextNodes[l] = n\<close>.
\<close>

fun put_loop :: "(addr \<Rightarrow> ('k::linorder, 'v) node) \<Rightarrow> 'k \<Rightarrow> addr \<Rightarrow> addr \<Rightarrow> nat
    \<Rightarrow> (addr \<Rightarrow> ('k, 'v) node) res" where
  "put_loop h k n a 0 = ok h"
| "put_loop h k n a (Suc l) =
     bindR (put_search_right h l k a) (\<lambda>a'.
       case nxt h a' l of
         Inl e \<Rightarrow> panic e
       | Inr p \<Rightarrow>
           (case set_nxt h n l p of
              Inl e \<Rightarrow> panic e
            | Inr h1 \<Rightarrow>
                (case set_nxt h1 a' l (Some n) of
                   Inl e \<Rightarrow> panic e
                 | Inr h2 \<Rightarrow> put_loop h2 k n a' l)))"

definition Put :: "('k::linorder, 'v) SkipList \<Rightarrow> 'k \<Rightarrow> 'v \<Rightarrow> (nat \<Rightarrow> nat)
    \<Rightarrow> ('k, 'v) SkipList res" where
  "Put sl k v draws = (if Level sl = 0 then ok sl
     else bindR (get sl k) (\<lambda>n.
       case n of
         Some a \<Rightarrow> ok (sl\<lparr>heap := (heap sl)(a := (heap sl a)\<lparr>val := v\<rparr>)\<rparr>)
       | None \<Rightarrow>
           (let randL = randLevel sl draws in
            case grow sl randL of
              Inl e \<Rightarrow> panic e
            | Inr sl1 \<Rightarrow>
                (let n = fresh sl1;
                     sl2 = sl1\<lparr>heap := (heap sl1)(n := newNode k v (replicate (randL + 1) None)),
                               fresh := Suc n\<rparr>
                 in case head sl2 of
                      None \<Rightarrow> panic NilPointer
                    | Some h0 \<Rightarrow>
                        bindR (put_loop (heap sl2) k n h0 (length (nextNodes (heap sl2 h0))))
                          (\<lambda>h'. ok (sl2\<lparr>heap := h'\<rparr>))))))"

subsection \<open>Del\<close>

text \<open>
  The loop of \<open>Del\<close> over the levels:
  \<open>head.nextNodes[l] = head.nextNodes[l].nextNodes[l]\<close> at a node with an equal key.
\<close>

fun del_loop :: "(addr \<Rightarrow> ('k::linorder, 'v) node) \<Rightarrow> 'k \<Rightarrow> addr \<Rightarrow> nat
    \<Rightarrow> (addr \<Rightarrow> ('k, 'v) node) res" where
  "del_loop h k a 0 = ok h"
| "del_loop h k a (Suc l) =
     bindR (search_right h l k a) (\<lambda>a'.
       case nxt h a' l of
         Inl e \<Rightarrow> panic e
       | Inr None \<Rightarrow> del_loop h k a' l
       | Inr (Some b) \<Rightarrow>
           if key (h b) = k then
             (case nxt h b l of
                Inl e \<Rightarrow> panic e
              | Inr p \<Rightarrow>
                  (case set_nxt h a' l p of
                     Inl e \<Rightarrow> panic e
                   | Inr h1 \<Rightarrow> del_loop h1 k a' l))
           else del_loop h k a' l)"

text \<open>
  The loop that counts the empty levels at the top,
  \<open>for l := sl.Level() - 1; l >= 0; l-- { if sl.head.nextNodes[l] != nil { break }; dif++ }\<close>,
  over the head's links \<open>ns\<close>, with \<open>n\<close> standing for \<open>l + 1\<close>.
\<close>

fun cut_dif :: "addr option list \<Rightarrow> nat \<Rightarrow> nat \<Rightarrow> nat" where
  "cut_dif ns 0 dif = dif"
| "cut_dif ns (Suc l) dif = (if ns ! l \<noteq> None then dif else cut_dif ns l (Suc dif))"

definition Del :: "('k::linorder, 'v) SkipList \<Rightarrow> 'k \<Rightarrow> ('k, 'v) SkipList res" where
  "Del sl k = (if Level sl = 0 then ok sl
     else bindR (get sl k) (\<lambda>n.
       if n \<noteq> None then ok sl
       else case head sl of
         None \<Rightarrow> panic NilPointer
       | Some h0 \<Rightarrow>
           bindR (del_loop (heap sl) k h0 (length (nextNodes (heap sl h0)))) (\<lambda>h'.
             let ns = nextNodes (h' h0);
                 dif = cut_dif ns (length ns) 0
             in ok (sl\<lparr>heap := h'(h0 := (h' h0)\<lparr>nextNodes := take (length ns - dif) ns\<rparr>)\<rparr>))))"

subsection \<open>Well-formed containers\<close>

text \<open>The number of levels of the node at an address.\<close>

definition height :: "(addr \<Rightarrow> ('k, 'v) node) \<Rightarrow> addr \<Rightarrow> nat" where
  "height h a = length (nextNodes (h a))"

text \<open>The first of the nodes \<open>rest\<close> that takes part in level \<open>l\<close>.\<close>

definition first_at :: "(addr \<Rightarrow> ('k, 'v) node) \<Rightarrow> nat \<Rightarrow> addr list \<Rightarrow> addr option" where
  "first_at h l rest = find (\<lambda>b. l < height h b) rest"

text \<open>
  The data model's invariant on forward links (spec, section 3): along the sequence of
  nodes, the link of a node at level \<open>l\<close> is the nearest later node that also takes part
  in level \<open>l\<close>, or nil.
\<close>

fun links :: "(addr \<Rightarrow> ('k, 'v) node) \<Rightarrow> addr list \<Rightarrow> bool" where
  "links h [] = True"
| "links h (a # rest) =
     (nextNodes (h a) = map (\<lambda>l. first_at h l rest) [0..<height h a] \<and> links h rest)"

text \<open>
  \<open>skiplist sl ns\<close>: the container \<open>sl\<close> is well formed and \<open>ns\<close> are the addresses
  of its nodes in base-level order. The head is not one of them, all are allocated, the
  links are those of the data model, the keys ascend strictly, and every node has at
  least the base level and at most the levels of the head. The zero value of the Go
  struct, with a nil head, is the container without nodes.
\<close>

definition skiplist :: "('k::linorder, 'v) SkipList \<Rightarrow> addr list \<Rightarrow> bool" where
  "skiplist sl ns = (case head sl of
      None \<Rightarrow> ns = []
    | Some h0 \<Rightarrow>
        h0 \<notin> set ns \<and> h0 < fresh sl \<and> list_all (\<lambda>a. a < fresh sl) ns \<and>
        links (heap sl) (h0 # ns) \<and>
        sorted_wrt (<) (map (\<lambda>a. key (heap sl a)) ns) \<and>
        list_all (\<lambda>a. 0 < height (heap sl) a \<and> height (heap sl) a \<le> height (heap sl) h0) ns)"

text \<open>The stored key-value pairs, in base-level order.\<close>

definition entries :: "('k, 'v) SkipList \<Rightarrow> addr list \<Rightarrow> ('k, 'v) KvPair list" where
  "entries sl ns = map (\<lambda>a. (key (heap sl a), val (heap sl a))) ns"

abbreviation keys_of :: "(addr \<Rightarrow> ('k, 'v) node) \<Rightarrow> addr list \<Rightarrow> 'k list" where
  "keys_of h ns \<equiv> map (\<lambda>a. key (h a)) ns"

subsection \<open>The walk that the three searches share\<close>

text \<open>
  The loops of \<open>get\<close>, \<open>ceil\<close> and \<open>floor\<close> differ only in what follows the loop.
  For the proofs the common part is \<open>descend\<close>: it ends at a node with an equal key
  (\<open>Match\<close>) or below the base level with \<open>head\<close> at some node (\<open>Bottom\<close>).
\<close>

datatype walk = Match addr | Bottom addr

fun descend :: "(addr \<Rightarrow> ('k::linorder, 'v) node) \<Rightarrow> 'k \<Rightarrow> addr \<Rightarrow> nat \<Rightarrow> walk res" where
  "descend h k a 0 = ok (Bottom a)"
| "descend h k a (Suc l) =
     bindR (search_right h l k a) (\<lambda>a'.
       case nxt h a' l of
         Inl e \<Rightarrow> panic e
       | Inr None \<Rightarrow> descend h k a' l
       | Inr (Some b) \<Rightarrow> if key (h b) = k then ok (Match b) else descend h k a' l)"

text \<open>What the walk from \<open>a\<close> finds when the nodes after \<open>a\<close> are \<open>rest\<close>.\<close>

definition walk_result :: "(addr \<Rightarrow> ('k::linorder, 'v) node) \<Rightarrow> 'k \<Rightarrow> addr \<Rightarrow> addr list \<Rightarrow> walk" where
  "walk_result h k a rest = (case find (\<lambda>b. key (h b) = k) rest of
       Some b \<Rightarrow> Match b
     | None \<Rightarrow> Bottom (last (a # takeWhile (\<lambda>b. key (h b) < k) rest)))"

definition first_opt :: "'a list \<Rightarrow> 'a option" where
  "first_opt xs = (case xs of [] \<Rightarrow> None | x # _ \<Rightarrow> Some x)"

subsection \<open>Example containers\<close>

text \<open>The keys 10, 20 and 30 of the spec's example; the node of 20 has two levels.\<close>

definition example3 :: "(int, int) SkipList" where
  "example3 = \<lparr>maxLevel = 4, head = Some 0,
     heap = (\<lambda>_. \<lparr>key = 0, val = 0, nextNodes = []\<rparr>)
       (0 := \<lparr>key = 0, val = 0, nextNodes = [Some 1, Some 2]\<rparr>,
        1 := \<lparr>key = 10, val = 100, nextNodes = [Some 2]\<rparr>,
        2 := \<lparr>key = 20, val = 200, nextNodes = [Some 3, None]\<rparr>,
        3 := \<lparr>key = 30, val = 300, nextNodes = [None]\<rparr>),
     fresh = 4\<rparr>"

text \<open>One key, 10, in a node of one level.\<close>

definition example1 :: "(int, int) SkipList" where
  "example1 = \<lparr>maxLevel = 4, head = Some 0,
     heap = (\<lambda>_. \<lparr>key = 0, val = 0, nextNodes = []\<rparr>)
       (0 := \<lparr>key = 0, val = 0, nextNodes = [Some 1]\<rparr>,
        1 := \<lparr>key = 10, val = 100, nextNodes = [None]\<rparr>),
     fresh = 2\<rparr>"

text \<open>One key, 10, in a node of two levels.\<close>

definition example2 :: "(int, int) SkipList" where
  "example2 = \<lparr>maxLevel = 4, head = Some 0,
     heap = (\<lambda>_. \<lparr>key = 0, val = 0, nextNodes = []\<rparr>)
       (0 := \<lparr>key = 0, val = 0, nextNodes = [Some 1, Some 1]\<rparr>,
        1 := \<lparr>key = 10, val = 100, nextNodes = [None, None]\<rparr>),
     fresh = 2\<rparr>"

text \<open>
  \<open>chain h l a bs\<close>: the nodes reached from the node \<open>a\<close> along the links of level
  \<open>l\<close> are \<open>bs\<close>, in this order, and the last link is nil.
\<close>

fun chain :: "(addr \<Rightarrow> ('k, 'v) node) \<Rightarrow> nat \<Rightarrow> addr \<Rightarrow> addr list \<Rightarrow> bool" where
  "chain h l a [] = (nxt h a l = Inr None)"
| "chain h l a (b # bs) = (nxt h a l = Inr (Some b) \<and> chain h l b bs)"

text \<open>The nodes reachable at level \<open>l\<close>, from the head.\<close>

definition level_nodes :: "('k, 'v) SkipList \<Rightarrow> nat \<Rightarrow> addr list \<Rightarrow> bool" where
  "level_nodes sl l bs = (case head sl of None \<Rightarrow> False | Some h0 \<Rightarrow> chain (heap sl) l h0 bs)"

text \<open>
  The leveled subsequence invariant as the spec words it: every level below \<open>Level\<close>
  has its sequence of reachable nodes, the keys reachable at a level \<open>l > 0\<close> are a
  subsequence of those reachable at level \<open>l - 1\<close>, and the keys of the base level
  ascend strictly (so no two nodes share a key).
\<close>

definition leveled :: "('k::linorder, 'v) SkipList \<Rightarrow> bool" where
  "leveled sl = (\<exists>lv. length lv = Level sl \<and>
      (\<forall>l<Level sl. level_nodes sl l (lv ! l)) \<and>
      (\<forall>l. 0 < l \<and> l < Level sl \<longrightarrow>
         subseq (keys_of (heap sl) (lv ! l)) (keys_of (heap sl) (lv ! (l - 1)))) \<and>
      (0 < Level sl \<longrightarrow> sorted_wrt (<) (keys_of (heap sl) (lv ! 0))))"

section \<open>Properties\<close>

subsection \<open>Results and links\<close>

text \<open>The definitions that evaluate an operation on a given container.\<close>

lemmas eval_defs = Level_def nxt_def set_nxt_def ok_def panic_def bindR_def newKvPair_def newNode_def
  get_def ceil_def floor_def Get_def Ceil_def Floor_def Range_sl_def Put_def Del_def
  randLevel_def grow.simps height_def first_at_def skiplist_def entries_def

lemma bindR_simps [simp]:
  "bindR None f = None"
  "bindR (Some (Inl e)) f = Some (Inl e)"
  "bindR (Some (Inr x)) f = f x"
  "bindR (ok x) f = f x"
  "bindR (panic e) f = panic e"
  by (simp_all add: bindR_def ok_def panic_def)

lemma nxt_links:
  assumes "links h (a # rest)" and "l < height h a"
  shows "nxt h a l = Inr (first_at h l rest)"
proof -
  from assms(1) have "nextNodes (h a) = map (\<lambda>l. first_at h l rest) [0..<height h a]"
    by simp
  then have "nextNodes (h a) ! l = map (\<lambda>l. first_at h l rest) [0..<height h a] ! l"
    by simp
  with assms(2) have "nextNodes (h a) ! l = first_at h l rest"
    by simp
  with assms(2) show ?thesis
    by (simp add: nxt_def height_def)
qed

lemma links_append: "links h (xs @ ys) \<Longrightarrow> links h ys"
  by (induction xs) auto

lemma links_last:
  assumes "links h ((a # skip) @ rest)"
  shows "links h (last (a # skip) # rest)"
proof -
  have "(a # skip) @ rest = butlast (a # skip) @ (last (a # skip) # rest)"
    by (metis append.assoc append_Cons append_Nil append_butlast_last_id list.distinct(1))
  with assms show ?thesis
    by (metis links_append)
qed

lemma find_split:
  "find P xs = Some b \<Longrightarrow> \<exists>ys zs. xs = ys @ b # zs \<and> P b \<and> (\<forall>y\<in>set ys. \<not> P y)"
proof (induction xs)
  case Nil
  then show ?case by simp
next
  case (Cons x xs)
  show ?case
  proof (cases "P x")
    case True
    with Cons.prems have "x = b" by simp
    with True have "x # xs = [] @ b # xs \<and> P b \<and> (\<forall>y\<in>set []. \<not> P y)" by simp
    then show ?thesis by blast
  next
    case False
    with Cons.prems have "find P xs = Some b" by simp
    from Cons.IH [OF this] obtain ys zs where "xs = ys @ b # zs" "P b" "\<forall>y\<in>set ys. \<not> P y"
      by blast
    with False have "x # xs = (x # ys) @ b # zs \<and> P b \<and> (\<forall>y\<in>set (x # ys). \<not> P y)" by simp
    then show ?thesis by blast
  qed
qed

lemma find_skip: "\<forall>x\<in>set xs. \<not> P x \<Longrightarrow> find P (xs @ ys) = find P ys"
  by (induction xs) auto

lemma search_right_links:
  fixes h :: "addr \<Rightarrow> ('k::linorder, 'v) node"
  assumes "links h (a # rest)" and "sorted_wrt (<) (keys_of h rest)" and "l < height h a"
  shows "\<exists>skip rest'. rest = skip @ rest' \<and>
           search_right h l k a = Some (Inr (last (a # skip))) \<and>
           (\<forall>b\<in>set skip. key (h b) < k) \<and>
           l < height h (last (a # skip)) \<and>
           (\<forall>b. first_at h l rest' = Some b \<longrightarrow> \<not> key (h b) < k)"
  using assms
proof (induction rest arbitrary: a rule: length_induct)
  case (1 rest)
  have nx: "nxt h a l = Inr (first_at h l rest)"
    using "1.prems" by (simp add: nxt_links)
  show ?case
  proof (cases "first_at h l rest")
    case None
    then have "search_right h l k a = Some (Inr a)"
      using nx by (subst search_right.simps) simp
    with None have "rest = [] @ rest \<and> search_right h l k a = Some (Inr (last (a # []))) \<and>
        (\<forall>b\<in>set []. key (h b) < k) \<and> l < height h (last (a # [])) \<and>
        (\<forall>b. first_at h l rest = Some b \<longrightarrow> \<not> key (h b) < k)"
      using "1.prems" by simp
    then show ?thesis by blast
  next
    case (Some b)
    then obtain ys zs where sp: "rest = ys @ b # zs" "l < height h b"
      unfolding first_at_def by (blast dest: find_split)
    show ?thesis
    proof (cases "key (h b) < k")
      case False
      then have "search_right h l k a = Some (Inr a)"
        using nx Some by (subst search_right.simps) simp
      with Some False have "rest = [] @ rest \<and> search_right h l k a = Some (Inr (last (a # []))) \<and>
        (\<forall>b\<in>set []. key (h b) < k) \<and> l < height h (last (a # [])) \<and>
        (\<forall>b. first_at h l rest = Some b \<longrightarrow> \<not> key (h b) < k)"
        using "1.prems" by simp
      then show ?thesis by blast
    next
      case True
      then have step: "search_right h l k a = search_right h l k b"
        using nx Some by (subst search_right.simps) simp
      have lb: "links h (b # zs)"
        using "1.prems"(1) sp(1) by (metis append_Cons links_append)
      have sb: "sorted_wrt (<) (keys_of h zs)"
        using "1.prems"(2) sp(1) by (simp add: sorted_wrt_append)
      have "length zs < length rest"
        using sp(1) by simp
      with "1.IH" lb sb sp(2) obtain skip rest' where
        r: "zs = skip @ rest'" "search_right h l k b = Some (Inr (last (b # skip)))"
           "\<forall>c\<in>set skip. key (h c) < k" "l < height h (last (b # skip))"
           "\<forall>c. first_at h l rest' = Some c \<longrightarrow> \<not> key (h c) < k"
        by blast
      have ys: "\<forall>c\<in>set ys. key (h c) < k"
        using "1.prems"(2) sp(1) True by (auto simp: sorted_wrt_append)
      have "rest = (ys @ b # skip) @ rest' \<and>
          search_right h l k a = Some (Inr (last (a # ys @ b # skip))) \<and>
          (\<forall>c\<in>set (ys @ b # skip). key (h c) < k) \<and>
          l < height h (last (a # ys @ b # skip)) \<and>
          (\<forall>c. first_at h l rest' = Some c \<longrightarrow> \<not> key (h c) < k)"
        using r sp(1) step True ys by auto
      then show ?thesis by blast
    qed
  qed
qed


subsection \<open>The walk on a well-formed container\<close>

lemma get_loop_descend:
  "get_loop h k a n = bindR (descend h k a n) (\<lambda>w. case w of Match b \<Rightarrow> ok (Some b) | Bottom a' \<Rightarrow> ok None)"
  by (induction n arbitrary: a)
    (auto simp: bindR_def ok_def panic_def split: option.splits sum.splits)

lemma ceil_loop_descend:
  "ceil_loop h k a n = bindR (descend h k a n) (\<lambda>w. case w of Match b \<Rightarrow> ok (Some b)
     | Bottom a' \<Rightarrow> (case nxt h a' 0 of Inl e \<Rightarrow> panic e | Inr p \<Rightarrow> ok p))"
  by (induction n arbitrary: a)
    (auto simp: bindR_def ok_def panic_def split: option.splits sum.splits)

lemma floor_loop_descend:
  "floor_loop h k a n = bindR (descend h k a n) (\<lambda>w. case w of Match b \<Rightarrow> ok (Some b) | Bottom a' \<Rightarrow> ok (Some a'))"
  by (induction n arbitrary: a)
    (auto simp: bindR_def ok_def panic_def split: option.splits sum.splits)

lemma walk_result_skip:
  fixes h :: "addr \<Rightarrow> ('k::linorder, 'v) node"
  assumes "\<forall>b\<in>set skip. key (h b) < k"
  shows "walk_result h k a (skip @ rest) = walk_result h k (last (a # skip)) rest"
proof -
  have f: "find (\<lambda>b. key (h b) = k) (skip @ rest) = find (\<lambda>b. key (h b) = k) rest"
    using assms by (intro find_skip) auto
  have t: "takeWhile (\<lambda>b. key (h b) < k) (skip @ rest) = skip @ takeWhile (\<lambda>b. key (h b) < k) rest"
    using assms by (simp add: takeWhile_append2)
  have l: "last (a # skip @ takeWhile (\<lambda>b. key (h b) < k) rest)
      = last (last (a # skip) # takeWhile (\<lambda>b. key (h b) < k) rest)"
    by (cases "takeWhile (\<lambda>b. key (h b) < k) rest = []") (simp_all add: last_append)
  show ?thesis
    by (simp only: walk_result_def f t l)
qed

lemma walk_result_above:
  fixes h :: "addr \<Rightarrow> ('k::linorder, 'v) node"
  assumes "\<forall>b\<in>set rest. k < key (h b)"
  shows "walk_result h k a rest = Bottom a"
proof -
  have "find (\<lambda>b. key (h b) = k) rest = None"
    using assms by (auto simp: find_None_iff)
  moreover have "takeWhile (\<lambda>b. key (h b) < k) rest = []"
    using assms by (cases rest) auto
  ultimately show ?thesis
    by (simp add: walk_result_def)
qed

lemma descend_links:
  fixes h :: "addr \<Rightarrow> ('k::linorder, 'v) node"
  assumes "links h (a # rest)" and "sorted_wrt (<) (keys_of h rest)"
    and "\<forall>b\<in>set rest. 0 < height h b" and "n \<le> height h a"
    and "\<forall>b\<in>set rest. n < height h b \<longrightarrow> k < key (h b)"
  shows "descend h k a n = ok (walk_result h k a rest)"
  using assms
proof (induction n arbitrary: a rest)
  case 0
  then have "\<forall>b\<in>set rest. k < key (h b)" by simp
  then show ?case by (simp add: walk_result_above)
next
  case (Suc l)
  from Suc.prems(4) have l: "l < height h a" by simp
  from search_right_links [OF Suc.prems(1) Suc.prems(2) l, of k]
  obtain skip rest' where
    r: "rest = skip @ rest'" "search_right h l k a = Some (Inr (last (a # skip)))"
       "\<forall>b\<in>set skip. key (h b) < k" "l < height h (last (a # skip))"
       "\<forall>b. first_at h l rest' = Some b \<longrightarrow> \<not> key (h b) < k"
    by blast
  define a' where "a' = last (a # skip)"
  have la: "links h (a' # rest')"
    using Suc.prems(1) r(1) unfolding a'_def by (metis append_Cons links_last)
  have nx: "nxt h a' l = Inr (first_at h l rest')"
    using la r(4) unfolding a'_def by (simp add: nxt_links)
  have so: "sorted_wrt (<) (keys_of h rest')"
    using Suc.prems(2) r(1) by (simp add: sorted_wrt_append)
  have hs: "\<forall>b\<in>set rest'. 0 < height h b"
    using Suc.prems(3) r(1) by simp
  have le: "l \<le> height h a'"
    using r(4) unfolding a'_def by simp
  have wr: "walk_result h k a rest = walk_result h k a' rest'"
    unfolding a'_def r(1) using r(3) by (rule walk_result_skip)
  show ?case
  proof (cases "first_at h l rest'")
    case None
    then have "\<forall>b\<in>set rest'. l < height h b \<longrightarrow> k < key (h b)"
      by (auto simp: first_at_def find_None_iff)
    from Suc.IH [OF la so hs le this] show ?thesis
      using r(2) nx None wr by (simp add: a'_def)
  next
    case (Some b)
    then obtain ys zs where sp: "rest' = ys @ b # zs" "l < height h b"
      "\<forall>y\<in>set ys. \<not> l < height h y"
      unfolding first_at_def by (blast dest: find_split)
    from r(5) Some have nb: "\<not> key (h b) < k" by simp
    show ?thesis
    proof (cases "key (h b) = k")
      case True
      have "\<forall>y\<in>set ys. key (h y) \<noteq> k"
        using so sp(1) True by (auto simp: sorted_wrt_append)
      then have "find (\<lambda>b. key (h b) = k) rest' = Some b"
        using sp(1) True by (simp add: find_skip)
      then have "walk_result h k a' rest' = Match b"
        by (simp add: walk_result_def)
      then show ?thesis
        using r(2) nx Some wr True by (simp add: a'_def)
    next
      case False
      with nb have kb: "k < key (h b)" by simp
      have "\<forall>c\<in>set rest'. l < height h c \<longrightarrow> k < key (h c)"
        using so sp kb by (auto simp: sorted_wrt_append)
      from Suc.IH [OF la so hs le this] show ?thesis
        using r(2) nx Some wr False by (simp add: a'_def)
    qed
  qed
qed


lemma first_at_base: "\<forall>b\<in>set xs. 0 < height h b \<Longrightarrow> first_at h 0 xs = first_opt xs"
  by (cases xs) (simp_all add: first_at_def first_opt_def)

lemma find_ge_dropWhile:
  fixes f :: "'a \<Rightarrow> 'k::linorder"
  shows "find (\<lambda>b. t \<le> f b) xs = first_opt (dropWhile (\<lambda>b. f b < t) xs)"
  by (induction xs) (auto simp: first_opt_def not_less)

lemma find_eq_imp_find_ge:
  fixes f :: "'a \<Rightarrow> 'k::linorder"
  assumes "sorted_wrt (<) (map f xs)" and "find (\<lambda>b. f b = t) xs = Some b"
  shows "find (\<lambda>b. t \<le> f b) xs = Some b"
proof -
  from find_split [OF assms(2)] obtain ys zs where sp: "xs = ys @ b # zs" "f b = t"
    by blast
  with assms(1) have "\<forall>y\<in>set ys. \<not> t \<le> f y"
    by (auto simp: sorted_wrt_append)
  then have "find (\<lambda>b. t \<le> f b) (ys @ b # zs) = find (\<lambda>b. t \<le> f b) (b # zs)"
    by (rule find_skip)
  with sp show ?thesis by simp
qed

lemma skiplist_level0:
  assumes "skiplist sl ns" and "Level sl = 0"
  shows "ns = []"
proof (cases ns)
  case Nil
  then show ?thesis .
next
  case (Cons a as)
  with assms show ?thesis
    by (auto simp: skiplist_def Level_def height_def split: option.splits)
qed

lemma get_correct:
  fixes sl :: "('k::linorder, 'v) SkipList"
  assumes "skiplist sl ns"
  shows "get sl k = ok (find (\<lambda>b. key (heap sl b) = k) ns)"
proof (cases "Level sl = 0")
  case True
  with assms have "ns = []" by (rule skiplist_level0)
  with True show ?thesis by (simp add: get_def)
next
  case False
  from False obtain h0 where h0: "head sl = Some h0"
    by (auto simp: Level_def split: option.splits)
  with assms have sk: "links (heap sl) (h0 # ns)" "sorted_wrt (<) (keys_of (heap sl) ns)"
    "\<forall>b\<in>set ns. 0 < height (heap sl) b"
    "\<forall>b\<in>set ns. height (heap sl) h0 < height (heap sl) b \<longrightarrow> k < key (heap sl b)"
    by (auto simp: skiplist_def list_all_iff)
  have "descend (heap sl) k h0 (height (heap sl) h0) = ok (walk_result (heap sl) k h0 ns)"
    using sk by (intro descend_links) simp_all
  then show ?thesis
    using False h0
    by (simp add: get_def get_loop_descend height_def walk_result_def split: option.splits)
qed

lemma ceil_correct:
  fixes sl :: "('k::linorder, 'v) SkipList"
  assumes "skiplist sl ns"
  shows "ceil sl t = ok (find (\<lambda>b. t \<le> key (heap sl b)) ns)"
proof (cases "Level sl = 0")
  case True
  with assms have "ns = []" by (rule skiplist_level0)
  with True show ?thesis by (simp add: ceil_def)
next
  case False
  from False obtain h0 where h0: "head sl = Some h0"
    by (auto simp: Level_def split: option.splits)
  define h where "h = heap sl"
  from assms h0 have sk: "links h (h0 # ns)" "sorted_wrt (<) (keys_of h ns)"
    "\<forall>b\<in>set ns. 0 < height h b"
    "\<forall>b\<in>set ns. height h h0 < height h b \<longrightarrow> t < key (h b)"
    by (auto simp: skiplist_def list_all_iff h_def)
  from False h0 have hp: "0 < height h h0"
    by (simp add: Level_def height_def h_def)
  have d: "descend h t h0 (height h h0) = ok (walk_result h t h0 ns)"
    using sk by (intro descend_links) simp_all
  have c: "ceil sl t = bindR (ok (walk_result h t h0 ns)) (\<lambda>w. case w of Match b \<Rightarrow> ok (Some b)
     | Bottom a' \<Rightarrow> (case nxt h a' 0 of Inl e \<Rightarrow> panic e | Inr p \<Rightarrow> ok p))"
    using False h0 d unfolding h_def by (simp add: ceil_def ceil_loop_descend height_def)
  show ?thesis
  proof (cases "find (\<lambda>b. key (h b) = t) ns")
    case (Some b)
    with sk(2) have "find (\<lambda>b. t \<le> key (h b)) ns = Some b"
      by (intro find_eq_imp_find_ge) simp_all
    with c Some show ?thesis
      by (simp add: walk_result_def h_def)
  next
    case None
    define tw where "tw = takeWhile (\<lambda>b. key (h b) < t) ns"
    define dw where "dw = dropWhile (\<lambda>b. key (h b) < t) ns"
    have ns: "ns = tw @ dw" by (simp add: tw_def dw_def)
    have la: "links h (last (h0 # tw) # dw)"
      using sk(1) ns by (metis append_Cons links_last)
    have "last (h0 # tw) \<in> set (h0 # tw)"
      by (rule last_in_set) simp
    then have "last (h0 # tw) = h0 \<or> last (h0 # tw) \<in> set ns"
      using ns by auto
    with hp sk(3) have "0 < height h (last (h0 # tw))" by auto
    with la have "nxt h (last (h0 # tw)) 0 = Inr (first_at h 0 dw)"
      by (rule nxt_links)
    moreover have "first_at h 0 dw = first_opt dw"
      using sk(3) ns by (intro first_at_base) simp
    moreover have "find (\<lambda>b. t \<le> key (h b)) ns = first_opt dw"
      unfolding dw_def by (rule find_ge_dropWhile)
    ultimately show ?thesis
      using c None by (simp add: walk_result_def tw_def h_def)
  qed
qed

subsection \<open>Ceil\<close>

lemma Ceil_find:
  fixes sl :: "('k::linorder, 'v) SkipList"
  assumes "skiplist sl ns"
  shows "Ceil sl target = ok (map_option (\<lambda>a. (key (heap sl a), val (heap sl a)))
           (find (\<lambda>b. target \<le> key (heap sl b)) ns))"
proof (cases "Level sl = 0")
  case True
  with assms have "ns = []" by (rule skiplist_level0)
  with True show ?thesis by (simp add: Ceil_def)
next
  case False
  then show ?thesis
    by (simp add: Ceil_def ceil_correct [OF assms] newKvPair_def split: option.splits)
qed

text \<open>
  Claim C7. On a well-formed container \<open>Ceil target\<close> returns, with found = true, the
  stored pair whose key is the smallest one that is at least \<open>target\<close>, and it reports
  not-found exactly when every stored key is below \<open>target\<close>.
\<close>

theorem Ceil_correct:
  fixes sl :: "('k::linorder, 'v) SkipList"
  assumes "skiplist sl ns"
  shows "(\<exists>k v. Ceil sl target = Some (Inr (Some (k, v))) \<and> (k, v) \<in> set (entries sl ns) \<and>
            target \<le> k \<and> (\<forall>k'\<in>set (map fst (entries sl ns)). target \<le> k' \<longrightarrow> k \<le> k'))
       \<or> (Ceil sl target = Some (Inr None) \<and> (\<forall>k'\<in>set (map fst (entries sl ns)). k' < target))"
proof (cases "find (\<lambda>b. target \<le> key (heap sl b)) ns")
  case None
  then have "\<forall>b\<in>set ns. key (heap sl b) < target"
    by (auto simp: find_None_iff)
  then have "\<forall>k'\<in>set (map fst (entries sl ns)). k' < target"
    by (simp add: entries_def)
  moreover have "Ceil sl target = Some (Inr None)"
    using None by (simp add: Ceil_find [OF assms] ok_def)
  ultimately show ?thesis by blast
next
  case (Some b)
  from find_split [OF Some] obtain ys zs where
    sp: "ns = ys @ b # zs" "target \<le> key (heap sl b)" "\<forall>y\<in>set ys. \<not> target \<le> key (heap sl y)"
    by blast
  from assms have "sorted_wrt (<) (keys_of (heap sl) ns)"
    by (simp add: skiplist_def split: option.splits)
  with sp(1) have "\<forall>z\<in>set zs. key (heap sl b) < key (heap sl z)"
    by (simp add: sorted_wrt_append)
  with sp have mn: "\<forall>k'\<in>set (map fst (entries sl ns)). target \<le> k' \<longrightarrow> key (heap sl b) \<le> k'"
    by (auto simp: entries_def)
  have "Ceil sl target = Some (Inr (Some (key (heap sl b), val (heap sl b))))"
    using Some by (simp add: Ceil_find [OF assms] ok_def)
  moreover have "(key (heap sl b), val (heap sl b)) \<in> set (entries sl ns)"
    using sp(1) by (simp add: entries_def)
  ultimately show ?thesis
    using sp(2) mn by blast
qed

theorem Ceil_correct_witness:
  "skiplist example3 [1, 2, 3] \<and> entries example3 [1, 2, 3] = [(10, 100), (20, 200), (30, 300)] \<and>
   Ceil example3 15 = Some (Inr (Some (20, 200))) \<and> Ceil example3 31 = Some (Inr None)"
proof -
  have h: "skiplist example3 [1, 2, 3]"
    by (simp add: skiplist_def example3_def height_def first_at_def)
  have e: "entries example3 [1, 2, 3] = [(10, 100), (20, 200), (30, 300)]"
    by (simp add: entries_def example3_def)
  from Ceil_correct [OF h, of 15] have "Ceil example3 15 = Some (Inr (Some (20, 200)))"
    unfolding e by auto
  moreover from Ceil_correct [OF h, of 31] have "Ceil example3 31 = Some (Inr None)"
    unfolding e by auto
  ultimately show ?thesis using h e by simp
qed

subsection \<open>Range\<close>

lemma range_loop_links:
  fixes h :: "addr \<Rightarrow> ('k::linorder, 'v) node"
  assumes "links h xs" and "\<forall>b\<in>set xs. 0 < height h b"
  shows "range_loop h e (first_opt xs) acc
       = ok (acc @ map (\<lambda>a. (key (h a), val (h a))) (takeWhile (\<lambda>b. key (h b) \<le> e) xs))"
  using assms
proof (induction xs arbitrary: acc)
  case Nil
  show ?case
    by (subst range_loop.simps) (simp add: first_opt_def ok_def)
next
  case (Cons x xs)
  show ?case
  proof (cases "key (h x) \<le> e")
    case False
    then show ?thesis
      by (subst range_loop.simps) (simp add: first_opt_def ok_def)
  next
    case True
    from Cons.prems have "nxt h x 0 = Inr (first_at h 0 xs)"
      by (intro nxt_links) simp_all
    moreover from Cons.prems have "first_at h 0 xs = first_opt xs"
      by (intro first_at_base) simp
    ultimately have "range_loop h e (first_opt (x # xs)) acc
        = range_loop h e (first_opt xs) (acc @ [(key (h x), val (h x))])"
      using True by (subst range_loop.simps) (simp add: first_opt_def newKvPair_def)
    also have "\<dots> = ok ((acc @ [(key (h x), val (h x))])
        @ map (\<lambda>a. (key (h a), val (h a))) (takeWhile (\<lambda>b. key (h b) \<le> e) xs))"
      using Cons.prems by (intro Cons.IH) simp_all
    finally show ?thesis
      using True by simp
  qed
qed

lemma sorted_take_drop_filter:
  fixes f :: "'a \<Rightarrow> 'k::linorder"
  assumes "sorted_wrt (<) (map f xs)"
  shows "takeWhile (\<lambda>x. f x \<le> e) (dropWhile (\<lambda>x. f x < s) xs)
       = filter (\<lambda>x. s \<le> f x \<and> f x \<le> e) xs"
  using assms
proof (induction xs)
  case Nil
  then show ?case by simp
next
  case (Cons x xs)
  then have IH: "takeWhile (\<lambda>x. f x \<le> e) (dropWhile (\<lambda>x. f x < s) xs)
       = filter (\<lambda>x. s \<le> f x \<and> f x \<le> e) xs"
    and gt: "\<forall>y\<in>set xs. f x < f y"
    by simp_all
  show ?case
  proof (cases "f x < s")
    case True
    then have "\<not> s \<le> f x" by simp
    with True IH show ?thesis by simp
  next
    case False
    with gt have "\<forall>y\<in>set xs. \<not> f y < s" by auto
    then have dw: "dropWhile (\<lambda>x. f x < s) xs = xs"
      by (cases xs) simp_all
    show ?thesis
    proof (cases "f x \<le> e")
      case True
      with False IH dw show ?thesis by simp
    next
      case nle: False
      with gt have "\<forall>y\<in>set xs. \<not> (s \<le> f y \<and> f y \<le> e)" by auto
      then have "filter (\<lambda>x. s \<le> f x \<and> f x \<le> e) xs = []"
        by (simp add: filter_empty_conv)
      with False nle show ?thesis by simp
    qed
  qed
qed

lemma Range_filter:
  fixes sl :: "('k::linorder, 'v) SkipList"
  assumes "skiplist sl ns"
  shows "Range_sl sl s e = ok (map (\<lambda>a. (key (heap sl a), val (heap sl a)))
           (filter (\<lambda>b. s \<le> key (heap sl b) \<and> key (heap sl b) \<le> e) ns))"
proof (cases "Level sl = 0")
  case True
  with assms have "ns = []" by (rule skiplist_level0)
  with True show ?thesis by (simp add: Range_sl_def)
next
  case False
  define h where "h = heap sl"
  define dw where "dw = dropWhile (\<lambda>b. key (h b) < s) ns"
  from False obtain h0 where h0: "head sl = Some h0"
    by (auto simp: Level_def split: option.splits)
  with assms have sk: "links h (h0 # ns)" "sorted_wrt (<) (keys_of h ns)"
    "\<forall>b\<in>set ns. 0 < height h b"
    by (auto simp: skiplist_def list_all_iff h_def)
  have ns: "ns = takeWhile (\<lambda>b. key (h b) < s) ns @ dw"
    by (simp add: dw_def)
  from sk(1) have "links h ns" by simp
  with ns have ld: "links h dw" by (metis links_append)
  from sk(3) ns have hd: "\<forall>b\<in>set dw. 0 < height h b"
    by (metis Un_iff set_append)
  have c: "ceil sl s = ok (first_opt dw)"
    unfolding dw_def h_def by (simp add: ceil_correct [OF assms] find_ge_dropWhile)
  have fl: "takeWhile (\<lambda>b. key (h b) \<le> e) dw = filter (\<lambda>b. s \<le> key (h b) \<and> key (h b) \<le> e) ns"
    unfolding dw_def using sk(2) by (rule sorted_take_drop_filter)
  show ?thesis
  proof (cases dw)
    case Nil
    with fl have "filter (\<lambda>b. s \<le> key (h b) \<and> key (h b) \<le> e) ns = []" by simp
    with False c Nil show ?thesis
      by (simp add: Range_sl_def first_opt_def h_def)
  next
    case (Cons c' cs)
    then have "Range_sl sl s e = range_loop h e (first_opt dw) []"
      using False c by (simp add: Range_sl_def first_opt_def h_def)
    also have "\<dots> = ok ([] @ map (\<lambda>a. (key (h a), val (h a))) (takeWhile (\<lambda>b. key (h b) \<le> e) dw))"
      using ld hd by (rule range_loop_links)
    finally show ?thesis
      unfolding fl unfolding h_def by simp
  qed
qed

lemma entries_sorted:
  assumes "skiplist sl ns"
  shows "sorted_wrt (<) (map fst (entries sl ns))"
  using assms by (simp add: skiplist_def entries_def comp_def split: option.splits)

text \<open>
  Claim C6. On a well-formed container \<open>Range s e\<close> returns exactly the stored pairs
  whose key lies in \<open>[s, e]\<close>, both bounds included, in ascending order of the keys and
  without a duplicate; the result is empty exactly when no stored key lies in \<open>[s, e]\<close>.
\<close>

theorem Range_correct:
  fixes sl :: "('k::linorder, 'v) SkipList"
  assumes "skiplist sl ns"
  shows "\<exists>res. Range_sl sl s e = Some (Inr res) \<and>
           res = filter (\<lambda>(k, v). s \<le> k \<and> k \<le> e) (entries sl ns) \<and>
           set res = {(k, v). (k, v) \<in> set (entries sl ns) \<and> s \<le> k \<and> k \<le> e} \<and>
           sorted_wrt (<) (map fst res) \<and> distinct (map fst res) \<and>
           (res = [] \<longleftrightarrow> \<not> (\<exists>k\<in>set (map fst (entries sl ns)). s \<le> k \<and> k \<le> e))"
proof -
  define res where "res = filter (\<lambda>(k, v). s \<le> k \<and> k \<le> e) (entries sl ns)"
  have r: "Range_sl sl s e = Some (Inr res)"
    by (simp add: Range_filter [OF assms] res_def entries_def filter_map comp_def ok_def)
  have s: "set res = {(k, v). (k, v) \<in> set (entries sl ns) \<and> s \<le> k \<and> k \<le> e}"
    by (auto simp: res_def)
  have "sorted_wrt (<) (map fst (entries sl ns))"
    using assms by (rule entries_sorted)
  then have "sorted_wrt (<) (map fst res)"
    unfolding res_def sorted_wrt_map by (rule sorted_wrt_filter)
  then have so: "sorted_wrt (<) (map fst res) \<and> distinct (map fst res)"
    by (simp add: strict_sorted_iff)
  have em: "res = [] \<longleftrightarrow> \<not> (\<exists>k\<in>set (map fst (entries sl ns)). s \<le> k \<and> k \<le> e)"
    by (auto simp: res_def filter_empty_conv)
  from r s so em show ?thesis
    unfolding res_def by blast
qed

theorem Range_correct_witness:
  "skiplist example3 [1, 2, 3] \<and> Range_sl example3 15 30 = Some (Inr [(20, 200), (30, 300)])
   \<and> Range_sl example3 31 40 = Some (Inr [])"
proof -
  have h: "skiplist example3 [1, 2, 3]"
    by (simp add: skiplist_def example3_def height_def first_at_def)
  have e: "entries example3 [1, 2, 3] = [(10, 100), (20, 200), (30, 300)]"
    by (simp add: entries_def example3_def)
  from Range_correct [OF h, of 15 30] have "Range_sl example3 15 30 = Some (Inr [(20, 200), (30, 300)])"
    unfolding e by auto
  moreover from Range_correct [OF h, of 31 40] have "Range_sl example3 31 40 = Some (Inr [])"
    unfolding e by auto
  ultimately show ?thesis using h by simp
qed

text \<open>
  Claim C10. On a well-formed container \<open>Range start end\<close> with \<open>start > end\<close> returns
  the empty sequence. \<open>Range\<close> only reads the container: it returns nothing but the
  sequence, so the container is the same afterwards.
\<close>

theorem Range_inverted:
  fixes sl :: "('k::linorder, 'v) SkipList"
  assumes "skiplist sl ns" and "endk < start"
  shows "Range_sl sl start endk = Some (Inr [])"
proof -
  from assms(2) have "filter (\<lambda>b. start \<le> key (heap sl b) \<and> key (heap sl b) \<le> endk) ns = []"
    by (auto simp: filter_empty_conv)
  then show ?thesis
    by (simp add: Range_filter [OF assms(1)] ok_def)
qed

theorem Range_inverted_witness:
  "skiplist example3 [1, 2, 3] \<and> (20::int) < 25 \<and> Range_sl example3 25 20 = Some (Inr [])"
proof -
  have h: "skiplist example3 [1, 2, 3]"
    by (simp add: skiplist_def example3_def height_def first_at_def)
  have l: "(20::int) < 25" by simp
  from Range_inverted [OF h l] h l show ?thesis by simp
qed

subsection \<open>Put on a stored key\<close>

lemma links_same_nextNodes:
  assumes "\<forall>b. nextNodes (h' b) = nextNodes (h b)"
  shows "links h' xs = links h xs"
  using assms by (induction xs) (simp_all add: first_at_def height_def)

lemma keys_inj:
  fixes f :: "'a \<Rightarrow> 'k::linorder"
  assumes "sorted_wrt (<) (map f xs)" and "x \<in> set xs" and "y \<in> set xs" and "f x = f y"
  shows "x = y"
proof -
  from assms(1) have "distinct (map f xs)"
    by (simp add: strict_sorted_iff)
  then have "inj_on f (set xs)"
    by (simp add: distinct_map)
  with assms(2-4) show ?thesis
    by (auto dest: inj_onD)
qed

lemma one_entry:
  assumes "distinct (map f xs)" and "x \<in> set xs"
  shows "length (filter (\<lambda>y. f y = f x) xs) = 1"
  using assms
proof (induction xs)
  case Nil
  then show ?case by simp
next
  case (Cons y ys)
  show ?case
  proof (cases "f y = f x")
    case True
    with Cons.prems(1) have "\<forall>z\<in>set ys. f z \<noteq> f x"
      by (force simp: image_iff)
    then have "filter (\<lambda>y. f y = f x) ys = []"
      by (simp add: filter_empty_conv)
    with True show ?thesis by simp
  next
    case False
    with Cons.prems have "x \<in> set ys" "distinct (map f ys)" by auto
    with Cons.IH False show ?thesis by simp
  qed
qed

lemma skiplist_update_val:
  fixes sl :: "('k::linorder, 'v) SkipList"
  assumes "skiplist sl ns"
  shows "skiplist (sl\<lparr>heap := (heap sl)(a := (heap sl a)\<lparr>val := v\<rparr>)\<rparr>) ns"
proof -
  define h' where "h' = (heap sl)(a := (heap sl a)\<lparr>val := v\<rparr>)"
  have n: "\<forall>b. nextNodes (h' b) = nextNodes (heap sl b)"
    by (simp add: h'_def)
  then have l: "\<And>xs. links h' xs = links (heap sl) xs"
    by (rule links_same_nextNodes)
  have k: "\<And>b. key (h' b) = key (heap sl b)"
    by (simp add: h'_def)
  have hg: "\<And>b. height h' b = height (heap sl) b"
    using n by (simp add: height_def)
  have fa: "\<And>l xs. first_at h' l xs = first_at (heap sl) l xs"
    by (simp add: first_at_def hg)
  from assms show ?thesis
    unfolding skiplist_def h'_def [symmetric]
    by (simp add: l k hg fa n split: option.splits)
qed

text \<open>
  Claim C8. On a well-formed container that stores the key \<open>k\<close>, \<open>Put k v2\<close> returns
  normally and changes nothing but the value of the node of \<open>k\<close>, which becomes \<open>v2\<close>:
  the container is well formed with the same nodes in the same order, so the keys and
  their number are the same and exactly one entry has the key \<open>k\<close>; the forward links
  of every node, and so every height, are unchanged; \<open>Get k\<close> then returns \<open>v2\<close>.
\<close>

theorem Put_update:
  fixes sl :: "('k::linorder, 'v) SkipList"
  assumes "skiplist sl ns" and "k \<in> set (map fst (entries sl ns))"
  shows "\<exists>a sl'. a \<in> set ns \<and> key (heap sl a) = k \<and>
           Put sl k v2 draws = Some (Inr sl') \<and>
           sl' = sl\<lparr>heap := (heap sl)(a := (heap sl a)\<lparr>val := v2\<rparr>)\<rparr> \<and>
           skiplist sl' ns \<and>
           Get sl' k = Some (Inr (Some v2)) \<and>
           map fst (entries sl' ns) = map fst (entries sl ns) \<and>
           length (filter (\<lambda>e. fst e = k) (entries sl' ns)) = 1 \<and>
           (\<forall>b. nextNodes (heap sl' b) = nextNodes (heap sl b)) \<and>
           (\<forall>b. b \<noteq> a \<longrightarrow> heap sl' b = heap sl b)"
proof -
  from assms(2) obtain a where a: "a \<in> set ns" "key (heap sl a) = k"
    by (auto simp: entries_def)
  define sl' where "sl' = sl\<lparr>heap := (heap sl)(a := (heap sl a)\<lparr>val := v2\<rparr>)\<rparr>"
  from assms(1) have so: "sorted_wrt (<) (keys_of (heap sl) ns)"
    by (simp add: skiplist_def split: option.splits)
  have uniq: "b = a" if "b \<in> set ns" and "key (heap sl b) = k" for b
  proof -
    from that(2) a(2) have "key (heap sl b) = key (heap sl a)" by simp
    from keys_inj [OF so that(1) a(1) this] show ?thesis .
  qed
  have fnd: "find (\<lambda>b. key (heap sl b) = k) ns = Some a"
  proof (cases "find (\<lambda>b. key (heap sl b) = k) ns")
    case None
    with a show ?thesis by (auto simp: find_None_iff)
  next
    case (Some b)
    from find_split [OF Some] have "b \<in> set ns" "key (heap sl b) = k" by auto
    with uniq Some show ?thesis by simp
  qed
  from a(1) assms(1) have lv: "Level sl \<noteq> 0"
    by (auto dest: skiplist_level0)
  have put: "Put sl k v2 draws = Some (Inr sl')"
    using lv fnd by (simp add: Put_def get_correct [OF assms(1)] sl'_def ok_def)
  have sk: "skiplist sl' ns"
    unfolding sl'_def using assms(1) by (rule skiplist_update_val)
  have key': "\<And>b. key (heap sl' b) = key (heap sl b)"
    by (simp add: sl'_def)
  have keys: "keys_of (heap sl') ns = keys_of (heap sl) ns"
    by (simp only: key')
  have fnd': "find (\<lambda>b. key (heap sl' b) = k) ns = Some a"
    using fnd by (simp only: key')
  from a(1) sk have lv': "Level sl' \<noteq> 0"
    by (auto dest: skiplist_level0)
  have gt: "Get sl' k = Some (Inr (Some v2))"
    using lv' fnd' by (simp add: Get_def get_correct [OF sk] ok_def) (simp add: sl'_def)
  have ks: "map fst (entries sl' ns) = map fst (entries sl ns)"
    using keys by (simp add: entries_def comp_def)
  from so have "distinct (keys_of (heap sl) ns)"
    by (simp add: strict_sorted_iff)
  then have "distinct (keys_of (heap sl') ns)"
    by (simp only: key')
  from one_entry [OF this a(1)] have "length (filter (\<lambda>y. key (heap sl' y) = k) ns) = 1"
    using a(2) by (simp only: key')
  then have one: "length (filter (\<lambda>e. fst e = k) (entries sl' ns)) = 1"
    by (simp add: entries_def filter_map comp_def)
  have nn: "\<forall>b. nextNodes (heap sl' b) = nextNodes (heap sl b)"
    by (simp add: sl'_def)
  have fr: "\<forall>b. b \<noteq> a \<longrightarrow> heap sl' b = heap sl b"
    by (simp add: sl'_def)
  from a put sk gt ks one nn fr show ?thesis
    unfolding sl'_def by blast
qed

theorem Put_update_witness:
  "skiplist example3 [1, 2, 3] \<and> (20::int) \<in> set (map fst (entries example3 [1, 2, 3])) \<and>
   (\<exists>sl'. Put example3 20 7 (\<lambda>_. 0) = Some (Inr sl') \<and> Get sl' 20 = Some (Inr (Some 7)) \<and>
      map fst (entries sl' [1, 2, 3]) = [10, 20, 30])"
proof -
  have h: "skiplist example3 [1, 2, 3]"
    by (simp add: skiplist_def example3_def height_def first_at_def)
  have e: "entries example3 [1, 2, 3] = [(10, 100), (20, 200), (30, 300)]"
    by (simp add: entries_def example3_def)
  have m: "(20::int) \<in> set (map fst (entries example3 [1, 2, 3]))"
    unfolding e by simp
  from Put_update [OF h m, of 7 "\<lambda>_. 0"] h m show ?thesis
    unfolding e by auto
qed

subsection \<open>The empty container\<close>

text \<open>
  Claim C9. The container that \<open>NewSkipList\<close> returns for a positive \<open>maxLevel\<close> has no
  level and no node; on it \<open>Get\<close>, \<open>Ceil\<close> and \<open>Floor\<close> report not-found for every
  key, \<open>Range\<close> returns the empty sequence for all bounds, and \<open>Del\<close> returns the
  container as it is.
\<close>

theorem fresh_container_empty:
  assumes "0 < m"
  shows "\<exists>sl :: ('k::{linorder,zero}, 'v::zero) SkipList.
           NewSkipList m = Some sl \<and> Level sl = 0 \<and> skiplist sl [] \<and>
           (\<forall>k. Get sl k = Some (Inr None)) \<and>
           (\<forall>t. Ceil sl t = Some (Inr None)) \<and>
           (\<forall>t. Floor sl t = Some (Inr None)) \<and>
           (\<forall>s e. Range_sl sl s e = Some (Inr [])) \<and>
           (\<forall>k. Del sl k = Some (Inr sl))"
  using assms by (simp add: NewSkipList_def eval_defs)

theorem fresh_container_empty_witness:
  "(0::int) < 4 \<and> (\<exists>sl :: (int, int) SkipList. NewSkipList 4 = Some sl \<and>
      Get sl 7 = Some (Inr None) \<and> Ceil sl 7 = Some (Inr None) \<and> Floor sl 7 = Some (Inr None) \<and>
      Range_sl sl 0 9 = Some (Inr []) \<and> Del sl 7 = Some (Inr sl))"
proof -
  have h: "(0::int) < 4" by simp
  from fresh_container_empty [OF h, where ?'k = int and ?'v = int] h show ?thesis
    by blast
qed

text \<open>
  Claim C1 fails on the code. \<open>Put\<close> returns at its guard \<open>sl.Level() == 0\<close>, and the
  container that \<open>NewSkipList\<close> returns has no level: on it every \<open>Put\<close>, whatever the
  key, the value and the draws, returns the container as it is, so after any sequence
  of \<open>Put\<close> calls \<open>Get\<close> reports not-found for every key.
\<close>

theorem first_Put_dropped:
  assumes "0 < m"
  shows "\<exists>sl :: ('k::{linorder,zero}, 'v::zero) SkipList.
           NewSkipList m = Some sl \<and> skiplist sl [] \<and>
           (\<forall>k v draws. Put sl k v draws = Some (Inr sl)) \<and>
           (\<forall>k. Get sl k = Some (Inr None))"
  using assms by (simp add: NewSkipList_def eval_defs)

theorem first_Put_dropped_witness:
  "(0::int) < 4 \<and> (\<exists>sl :: (int, int) SkipList. NewSkipList 4 = Some sl \<and>
      Put sl 1 7 (\<lambda>_. 1) = Some (Inr sl) \<and> Get sl 1 = Some (Inr None))"
proof -
  have h: "(0::int) < 4" by simp
  from first_Put_dropped [OF h, where ?'k = int and ?'v = int] h show ?thesis
    by blast
qed

subsection \<open>Del on a stored key\<close>

lemma Get_find:
  fixes sl :: "('k::linorder, 'v) SkipList"
  assumes "skiplist sl ns"
  shows "Get sl k = ok (map_option (\<lambda>a. val (heap sl a)) (find (\<lambda>b. key (heap sl b) = k) ns))"
proof (cases "Level sl = 0")
  case True
  with assms have "ns = []" by (rule skiplist_level0)
  with True show ?thesis by (simp add: Get_def)
next
  case False
  then show ?thesis
    by (simp add: Get_def get_correct [OF assms] split: option.splits)
qed

text \<open>
  Claim C2 fails on the code. \<open>Del\<close> returns when \<open>get\<close> finds the key (the test
  \<open>n != nil\<close> under the comment "not exist"): on every well-formed container that
  stores the key \<open>k\<close>, \<open>Del k\<close> returns the container as it is, and \<open>Get k\<close> still
  finds the value of \<open>k\<close>.
\<close>

theorem Del_keeps_stored_key:
  fixes sl :: "('k::linorder, 'v) SkipList"
  assumes "skiplist sl ns" and "k \<in> set (map fst (entries sl ns))"
  shows "Del sl k = Some (Inr sl) \<and>
         (\<exists>v. (k, v) \<in> set (entries sl ns) \<and> Get sl k = Some (Inr (Some v)))"
proof -
  from assms(2) obtain a where a: "a \<in> set ns" "key (heap sl a) = k"
    by (auto simp: entries_def)
  then obtain b where b: "find (\<lambda>b. key (heap sl b) = k) ns = Some b"
    by (cases "find (\<lambda>b. key (heap sl b) = k) ns") (auto simp: find_None_iff)
  from find_split [OF b] have bk: "b \<in> set ns" "key (heap sl b) = k"
    by auto
  from a(1) assms(1) have "Level sl \<noteq> 0"
    by (auto dest: skiplist_level0)
  with b have "Del sl k = Some (Inr sl)"
    by (simp add: Del_def get_correct [OF assms(1)] ok_def)
  moreover have "Get sl k = Some (Inr (Some (val (heap sl b))))"
    using b by (simp add: Get_find [OF assms(1)] ok_def)
  moreover have "(k, val (heap sl b)) \<in> set (entries sl ns)"
    using bk by (force simp: entries_def)
  ultimately show ?thesis by blast
qed

theorem Del_keeps_stored_key_witness:
  "skiplist example3 [1, 2, 3] \<and> (20::int) \<in> set (map fst (entries example3 [1, 2, 3])) \<and>
   Del example3 20 = Some (Inr example3) \<and> Get example3 20 = Some (Inr (Some 200))"
proof -
  have h: "skiplist example3 [1, 2, 3]"
    by (simp add: skiplist_def example3_def height_def first_at_def)
  have e: "entries example3 [1, 2, 3] = [(10, 100), (20, 200), (30, 300)]"
    by (simp add: entries_def example3_def)
  have m: "(20::int) \<in> set (map fst (entries example3 [1, 2, 3]))"
    unfolding e by simp
  from Del_keeps_stored_key [OF h m] h m show ?thesis
    unfolding e by auto
qed

subsection \<open>Floor\<close>

lemma floor_correct:
  fixes sl :: "('k::linorder, 'v) SkipList"
  assumes "skiplist sl ns" and "head sl = Some h0" and "Level sl \<noteq> 0"
  shows "floor sl t = ok (Some (case find (\<lambda>b. key (heap sl b) = t) ns of
           Some b \<Rightarrow> b
         | None \<Rightarrow> last (h0 # takeWhile (\<lambda>b. key (heap sl b) < t) ns)))"
proof -
  from assms(1,2) have sk: "links (heap sl) (h0 # ns)" "sorted_wrt (<) (keys_of (heap sl) ns)"
    "\<forall>b\<in>set ns. 0 < height (heap sl) b"
    "\<forall>b\<in>set ns. height (heap sl) h0 < height (heap sl) b \<longrightarrow> t < key (heap sl b)"
    by (auto simp: skiplist_def list_all_iff)
  have "descend (heap sl) t h0 (height (heap sl) h0) = ok (walk_result (heap sl) t h0 ns)"
    using sk by (intro descend_links) simp_all
  then show ?thesis
    using assms(2,3)
    by (simp add: floor_def floor_loop_descend height_def walk_result_def split: option.splits)
qed

text \<open>
  Claim C3 fails on the code. \<open>Floor\<close> reports found unless the node that \<open>floor\<close>
  returns is \<open>sl.head.nextNodes[0]\<close>. On every well-formed container with a first node
  \<open>a\<close>: when the floor of \<open>t\<close> is the smallest stored key (the key of \<open>a\<close> is at most
  \<open>t\<close> and every later key is above \<open>t\<close>), \<open>Floor t\<close> reports not-found; when \<open>t\<close>
  is below every stored key, \<open>floor\<close> returns the head and \<open>Floor t\<close> reports found
  with the head's key and value.
\<close>

theorem Floor_misreports:
  fixes sl :: "('k::linorder, 'v) SkipList"
  assumes "skiplist sl (a # rest)" and "head sl = Some h0"
  shows "(key (heap sl a) \<le> t \<and> list_all (\<lambda>b. t < key (heap sl b)) rest
            \<longrightarrow> Floor sl t = Some (Inr None))
       \<and> (t < key (heap sl a)
            \<longrightarrow> Floor sl t = Some (Inr (Some (key (heap sl h0), val (heap sl h0)))))"
proof -
  define h where "h = heap sl"
  from assms(1) have lv: "Level sl \<noteq> 0"
    by (auto dest: skiplist_level0)
  from assms have sk: "links h (h0 # a # rest)" "sorted_wrt (<) (keys_of h (a # rest))"
    "h0 \<noteq> a" "0 < height h a"
    by (auto simp: skiplist_def h_def)
  from lv assms(2) have "0 < height h h0"
    by (simp add: Level_def height_def h_def)
  with sk(1) have "nxt h h0 0 = Inr (first_at h 0 (a # rest))"
    by (rule nxt_links)
  with sk(4) have first: "nxt h h0 0 = Inr (Some a)"
    by (simp add: first_at_def)
  note fl = floor_correct [OF assms lv, of t, folded h_def]
  have low: "Floor sl t = Some (Inr None)"
    if "key (h a) \<le> t" and "list_all (\<lambda>b. t < key (h b)) rest"
  proof -
    from that(2) have r: "\<forall>b\<in>set rest. t < key (h b)"
      by (simp add: list_all_iff)
    then have fr: "find (\<lambda>b. key (h b) = t) rest = None"
      by (auto simp: find_None_iff)
    from r have tr: "takeWhile (\<lambda>b. key (h b) < t) rest = []"
      by (cases rest) auto
    have "floor sl t = ok (Some a)"
      using that(1) fr tr unfolding fl by (cases "key (h a) = t") auto
    then show ?thesis
      using lv assms(2) first by (simp add: Floor_def ok_def h_def)
  qed
  have high: "Floor sl t = Some (Inr (Some (key (h h0), val (h h0))))"
    if "t < key (h a)"
  proof -
    from sk(2) that have r: "\<forall>b\<in>set (a # rest). t < key (h b)"
      by auto
    then have fr: "find (\<lambda>b. key (h b) = t) (a # rest) = None"
      by (auto simp: find_None_iff)
    from that have "\<not> key (h a) < t" by simp
    then have "floor sl t = ok (Some h0)"
      using fr unfolding fl by simp
    then show ?thesis
      using lv assms(2) first sk(3) by (simp add: Floor_def ok_def newKvPair_def h_def)
  qed
  from low high show ?thesis
    unfolding h_def by blast
qed

theorem Floor_misreports_witness:
  "skiplist example3 [1, 2, 3] \<and> head example3 = Some 0 \<and>
   entries example3 [1, 2, 3] = [(10, 100), (20, 200), (30, 300)] \<and>
   Floor example3 15 = Some (Inr None) \<and>
   Floor example3 9 = Some (Inr (Some (0, 0)))"
proof -
  have h: "skiplist example3 [1, 2, 3]"
    by (simp add: skiplist_def example3_def height_def first_at_def)
  have e: "entries example3 [1, 2, 3] = [(10, 100), (20, 200), (30, 300)]"
    by (simp add: entries_def example3_def)
  have h0: "head example3 = Some 0"
    by (simp add: example3_def)
  have "Floor example3 15 = Some (Inr None)"
    using Floor_misreports [OF h h0, of 15] by (simp add: example3_def)
  moreover have "Floor example3 9 = Some (Inr (Some (0, 0)))"
    using Floor_misreports [OF h h0, of 9] by (simp add: example3_def)
  ultimately show ?thesis
    using h e h0 by simp
qed

subsection \<open>Put of a new key\<close>

lemma nxt_upd_other: "b \<noteq> n \<Longrightarrow> nxt (h(n := x)) b l = nxt h b l"
  by (simp add: nxt_def)

lemma Put_after_first_node:
  fixes sl :: "('k::linorder, 'v) SkipList"
  assumes "skiplist sl (a # rest)" and "head sl = Some h0" and "Level sl = 1"
    and "randLevel sl draws = 0"
    and "key (heap sl h0) < k" and "k < key (heap sl a)"
  shows "\<exists>sl'. Put sl k v draws = Some (Inr sl') \<and> head sl' = Some h0 \<and>
           chain (heap sl') 0 h0 (a # fresh sl # rest) \<and>
           keys_of (heap sl') (a # fresh sl # rest) = key (heap sl a) # k # keys_of (heap sl) rest"
proof -
  define h where "h = heap sl"
  define n where "n = fresh sl"
  define h2 where "h2 = h(n := newNode k v (replicate (0 + 1) None))"
  define p where "p = first_opt rest"
  define h3 where "h3 = h2(n := (h2 n)\<lparr>nextNodes := (nextNodes (h2 n))[0 := p]\<rparr>)"
  define h4 where "h4 = h3(a := (h3 a)\<lparr>nextNodes := (nextNodes (h3 a))[0 := Some n]\<rparr>)"
  from assms(1,2) have sk: "links h (h0 # a # rest)" "sorted_wrt (<) (keys_of h (a # rest))"
    "n \<notin> set (h0 # a # rest)" "h0 \<notin> set (a # rest)"
    "\<forall>b\<in>set (a # rest). 0 < height h b \<and> height h b \<le> height h h0"
    by (auto simp: skiplist_def list_all_iff n_def h_def)
  from assms(2,3) have lh: "height h h0 = 1"
    by (simp add: Level_def height_def h_def)
  with sk(5) have ha: "height h a = 1" and hr: "\<forall>b\<in>set rest. height h b = 1"
    by force+
  from sk(2) assms(6) have "find (\<lambda>b. key (h b) = k) (a # rest) = None"
    by (auto simp: find_None_iff h_def)
  then have g: "get sl k = ok None"
    unfolding h_def by (simp only: get_correct [OF assms(1)])
  from assms(3) have gr: "grow sl 0 = Inr sl"
    by (subst grow.simps) simp
  have ne: "h0 \<noteq> n" "a \<noteq> n" "h0 \<noteq> a"
    using sk(3,4) by auto
  have n0: "nxt h h0 0 = Inr (Some a)"
    using nxt_links [OF sk(1), of 0] lh ha by (simp add: first_at_def)
  from sk(1) have "links h (a # rest)" by simp
  from nxt_links [OF this, of 0] ha hr have na: "nxt h a 0 = Inr p"
    by (cases rest) (simp_all add: first_at_def first_opt_def p_def)
  have n20: "nxt h2 h0 0 = Inr (Some a)" and n2a: "nxt h2 a 0 = Inr p"
    using n0 na ne by (simp_all add: nxt_upd_other h2_def)
  have k2: "key (h2 h0) < k" "\<not> key (h2 a) < k"
    using assms(5,6) ne by (simp_all add: h2_def h_def)
  have "put_search_right h2 0 k a = Some (Inr a)"
    using n2a k2(2) by (subst put_search_right.simps) (simp split: option.splits)
  then have ps: "put_search_right h2 0 k h0 = Some (Inr a)"
    using n20 k2(1) by (subst put_search_right.simps) simp
  have s1: "set_nxt h2 n 0 p = Inr h3"
    by (simp add: set_nxt_def h3_def h2_def newNode_def)
  have "0 < length (nextNodes (h3 a))"
    using ha ne by (simp add: h3_def h2_def height_def)
  then have s2: "set_nxt h3 a 0 (Some n) = Inr h4"
    by (simp add: set_nxt_def h4_def)
  have l2: "length (nextNodes (h2 h0)) = Suc 0"
    using lh ne by (simp add: h2_def height_def)
  have pl: "put_loop h2 k n h0 (length (nextNodes (h2 h0))) = Some (Inr h4)"
    unfolding l2 using ps n2a s1 s2 by (simp add: ok_def)
  have "Put sl k v draws = bindR (put_loop h2 k n h0 (length (nextNodes (h2 h0))))
      (\<lambda>h'. ok (sl\<lparr>heap := h2, fresh := Suc n\<rparr>\<lparr>heap := h'\<rparr>))"
    unfolding Put_def h2_def n_def h_def
    using assms(2,3,4) g gr by (simp add: Let_def)
  then have put: "Put sl k v draws = Some (Inr (sl\<lparr>heap := h4, fresh := Suc n\<rparr>))"
    unfolding pl by (simp add: ok_def)
  have c0: "nxt h4 h0 0 = Inr (Some a)"
    using n0 ne by (simp add: nxt_upd_other h4_def h3_def h2_def)
  have c1: "nxt h4 a 0 = Inr (Some n)"
    using ha ne by (simp add: nxt_def h4_def h3_def h2_def height_def)
  have c2: "nxt h4 n 0 = Inr p"
    using ne by (simp add: nxt_def h4_def h3_def h2_def newNode_def)
  have same: "\<And>b. b \<in> set rest \<Longrightarrow> h4 b = h b"
    using sk(3,2) by (auto simp: h4_def h3_def h2_def)
  then have same_nxt: "\<And>b. b \<in> set rest \<Longrightarrow> nxt h4 b 0 = nxt h b 0"
    by (simp add: nxt_def)
  have cr: "chain h4 0 b bs" if "links h (b # bs)" and "set (b # bs) \<subseteq> set rest" for b bs
    using that
  proof (induction bs arbitrary: b)
    case Nil
    then have "height h b = 1" using hr by simp
    with nxt_links [OF Nil(1), of 0] have "nxt h b 0 = Inr None"
      by (simp add: first_at_def)
    with Nil(2) same_nxt show ?case by simp
  next
    case (Cons c cs)
    then have "height h b = 1" "height h c = 1" using hr by simp_all
    with nxt_links [OF Cons.prems(1), of 0] have "nxt h b 0 = Inr (Some c)"
      by (simp add: first_at_def)
    with Cons.prems(2) same_nxt have "nxt h4 b 0 = Inr (Some c)" by simp
    moreover from Cons.prems have "chain h4 0 c cs"
      by (intro Cons.IH) simp_all
    ultimately show ?case by simp
  qed
  have cn: "chain h4 0 n rest"
  proof (cases rest)
    case Nil
    with c2 show ?thesis by (simp add: p_def first_opt_def)
  next
    case (Cons b bs)
    with sk(1) have "links h (b # bs)" by simp
    then have "chain h4 0 b bs"
      using Cons by (intro cr) simp_all
    with c2 Cons show ?thesis by (simp add: p_def first_opt_def)
  qed
  have ch: "chain h4 0 h0 (a # n # rest)"
    using c0 c1 cn by simp
  have ks: "keys_of h4 (a # n # rest) = key (h a) # k # keys_of h rest"
    using same ne by (simp add: h4_def h3_def h2_def newNode_def)
  from put ch ks assms(2) show ?thesis
    unfolding n_def h_def by simp
qed

lemma chain_first_at:
  assumes "links h rest" and "nxt h a l = Inr (first_at h l rest)"
  shows "chain h l a (filter (\<lambda>b. l < height h b) rest)"
  using assms
proof (induction rest arbitrary: a)
  case Nil
  then show ?case by (simp add: first_at_def)
next
  case (Cons b rs)
  show ?case
  proof (cases "l < height h b")
    case True
    with Cons.prems(1) have "nxt h b l = Inr (first_at h l rs)"
      by (intro nxt_links) simp_all
    with Cons.prems(1) have "chain h l b (filter (\<lambda>b. l < height h b) rs)"
      by (intro Cons.IH) simp_all
    with True Cons.prems(2) show ?thesis
      by (simp add: first_at_def)
  next
    case False
    with Cons.prems(2) have "nxt h a l = Inr (first_at h l rs)"
      by (simp add: first_at_def)
    with Cons.prems(1) have "chain h l a (filter (\<lambda>b. l < height h b) rs)"
      by (intro Cons.IH) simp_all
    with False show ?thesis by simp
  qed
qed

lemma chain_unique: "chain h l a bs \<Longrightarrow> chain h l a cs \<Longrightarrow> bs = cs"
proof (induction bs arbitrary: a cs)
  case Nil
  then show ?case by (cases cs) simp_all
next
  case (Cons b bs)
  then show ?case by (cases cs) auto
qed

lemma skiplist_leveled:
  fixes sl :: "('k::linorder, 'v) SkipList"
  assumes "skiplist sl ns"
  shows "leveled sl"
proof (cases "Level sl = 0")
  case True
  then show ?thesis by (simp add: leveled_def)
next
  case False
  define h where "h = heap sl"
  from False obtain h0 where h0: "head sl = Some h0"
    by (auto simp: Level_def split: option.splits)
  from assms h0 have sk: "links h (h0 # ns)" "sorted_wrt (<) (keys_of h ns)"
    "\<forall>b\<in>set ns. 0 < height h b"
    by (auto simp: skiplist_def list_all_iff h_def)
  have L: "Level sl = height h h0"
    using h0 by (simp add: Level_def height_def h_def)
  define at where "at = (\<lambda>l. filter (\<lambda>b. l < height h b) ns)"
  define lv where "lv = map at [0..<Level sl]"
  have len: "length lv = Level sl"
    by (simp add: lv_def)
  have nth: "\<And>l. l < Level sl \<Longrightarrow> lv ! l = at l"
    by (simp add: lv_def)
  have ch: "level_nodes sl l (lv ! l)" if "l < Level sl" for l
  proof -
    from that L sk(1) have "nxt h h0 l = Inr (first_at h l ns)"
      by (intro nxt_links) simp_all
    moreover from sk(1) have "links h ns" by simp
    ultimately have "chain h l h0 (at l)"
      unfolding at_def by (intro chain_first_at)
    with that h0 show ?thesis
      by (simp add: level_nodes_def nth h_def)
  qed
  have sub: "subseq (keys_of h (lv ! l)) (keys_of h (lv ! (l - 1)))" if "0 < l" and "l < Level sl" for l
  proof -
    have "at l = filter (\<lambda>b. l < height h b) (at (l - 1))"
      unfolding at_def using that(1) by (auto simp: filter_eq_iff intro: filter_cong)
    then have "subseq (at l) (at (l - 1))"
      by (metis subseq_filter_left)
    then have "subseq (keys_of h (at l)) (keys_of h (at (l - 1)))"
      by (rule subseq_map)
    with that show ?thesis
      by (simp add: nth)
  qed
  have base: "sorted_wrt (<) (keys_of h (lv ! 0))"
  proof -
    from sk(3) have "at 0 = ns"
      by (simp add: at_def)
    with sk(2) False show ?thesis
      by (simp add: nth)
  qed
  from len ch sub base show ?thesis
    unfolding leveled_def h_def by blast
qed

text \<open>
  Claim C4 fails on the code. The inner loop of \<open>Put\<close> compares \<open>head.key\<close>, not
  \<open>head.nextNodes[l].key\<close>, with the new key, so it stops one node late. On every
  well-formed container of one level whose head has a key below \<open>k\<close> and whose first
  node \<open>a\<close> has a key above \<open>k\<close>, the leveled subsequence invariant holds, \<open>Put k\<close>
  with a drawn level 0 returns normally and links the new node after \<open>a\<close>: the keys
  along the base level then start with the key of \<open>a\<close> followed by the smaller \<open>k\<close>,
  and the invariant does not hold any more.
\<close>

theorem Put_breaks_order:
  fixes sl :: "('k::linorder, 'v) SkipList"
  assumes "skiplist sl (a # rest)" and "head sl = Some h0" and "Level sl = 1"
    and "randLevel sl draws = 0"
    and "key (heap sl h0) < k" and "k < key (heap sl a)"
  shows "leveled sl \<and>
         (\<exists>sl'. Put sl k v draws = Some (Inr sl') \<and>
            level_nodes sl' 0 (a # fresh sl # rest) \<and>
            keys_of (heap sl') (a # fresh sl # rest) = key (heap sl a) # k # keys_of (heap sl) rest \<and>
            \<not> leveled sl')"
proof -
  from Put_after_first_node [OF assms, of v] obtain sl' where
    p0: "Put sl k v draws = Some (Inr sl') \<and> head sl' = Some h0 \<and>
       chain (heap sl') 0 h0 (a # fresh sl # rest) \<and>
       keys_of (heap sl') (a # fresh sl # rest) = key (heap sl a) # k # keys_of (heap sl) rest"
    by (rule exE)
  note p = p0 [THEN conjunct1] p0 [THEN conjunct2, THEN conjunct1]
    p0 [THEN conjunct2, THEN conjunct2, THEN conjunct1]
    p0 [THEN conjunct2, THEN conjunct2, THEN conjunct2]
  from p(2,3) have ln: "level_nodes sl' 0 (a # fresh sl # rest)"
    by (simp add: level_nodes_def)
  from p(3) have "nxt (heap sl') h0 0 = Inr (Some a)" by simp
  then have lv: "0 < Level sl'"
    using p(2) by (auto simp: nxt_def Level_def split: if_splits)
  have nl: "\<not> leveled sl'"
  proof
    assume "leveled sl'"
    then obtain lv where l: "level_nodes sl' 0 (lv ! 0)" "sorted_wrt (<) (keys_of (heap sl') (lv ! 0))"
      using lv unfolding leveled_def by blast
    from l(1) p(2,3) have "lv ! 0 = a # fresh sl # rest"
      by (auto simp: level_nodes_def intro: chain_unique)
    with l(2) p(4) have "key (heap sl a) < k" by simp
    with assms(6) show False by simp
  qed
  from p(1) ln p(4) nl have "\<exists>sl'. Put sl k v draws = Some (Inr sl') \<and>
            level_nodes sl' 0 (a # fresh sl # rest) \<and>
            keys_of (heap sl') (a # fresh sl # rest) = key (heap sl a) # k # keys_of (heap sl) rest \<and>
            \<not> leveled sl'"
    by (intro exI [of _ sl'] conjI)
  with skiplist_leveled [OF assms(1)] show ?thesis
    by (rule conjI)
qed

theorem Put_breaks_order_witness:
  "skiplist example1 [1] \<and> head example1 = Some 0 \<and> Level example1 = 1 \<and>
   randLevel example1 (\<lambda>_. 1) = 0 \<and> key (heap example1 0) < 5 \<and> 5 < key (heap example1 1) \<and>
   fresh example1 = 2 \<and> leveled example1 \<and>
   (\<exists>sl'. Put example1 5 7 (\<lambda>_. 1) = Some (Inr sl') \<and> level_nodes sl' 0 [1, 2] \<and>
      keys_of (heap sl') [1, 2] = [10, 5] \<and> \<not> leveled sl')"
proof -
  have h: "skiplist example1 [1]"
    by (simp add: skiplist_def example1_def height_def first_at_def)
  have e: "head example1 = Some 0" "Level example1 = 1" "randLevel example1 (\<lambda>_. 1) = 0"
    "key (heap example1 0) < 5" "5 < key (heap example1 1)"
    by (simp_all add: example1_def Level_def randLevel_def)
  have f: "fresh example1 = 2" "key (heap example1 1) = 10"
    by (simp_all add: example1_def)
  from Put_breaks_order [OF h e, of 7] h e f show ?thesis
    by simp
qed

lemma first_at_upd_other:
  "n \<notin> set xs \<Longrightarrow> first_at (h(n := x)) l xs = first_at h l xs"
  by (induction xs) (auto simp: first_at_def height_def)

lemma links_upd_other:
  "n \<notin> set xs \<Longrightarrow> links (h(n := x)) xs = links h xs"
  by (induction xs) (auto simp: first_at_upd_other height_def)

lemma put_search_right_links:
  fixes h :: "addr \<Rightarrow> ('k::linorder, 'v) node"
  assumes "links h (a # rest)" and "l < height h a"
  shows "\<exists>a'. put_search_right h l k a = Some (Inr a') \<and> l < height h a'"
  using assms
proof (induction rest arbitrary: a rule: length_induct)
  case (1 rest)
  have nx: "nxt h a l = Inr (first_at h l rest)"
    using "1.prems" by (simp add: nxt_links)
  show ?case
  proof (cases "first_at h l rest")
    case None
    then have "put_search_right h l k a = Some (Inr a)"
      using nx by (subst put_search_right.simps) simp
    with "1.prems"(2) show ?thesis by blast
  next
    case (Some b)
    then obtain ys zs where sp: "rest = ys @ b # zs" "l < height h b"
      unfolding first_at_def by (blast dest: find_split)
    show ?thesis
    proof (cases "key (h a) < k")
      case False
      then have "put_search_right h l k a = Some (Inr a)"
        using nx Some by (subst put_search_right.simps) simp
      with "1.prems"(2) show ?thesis by blast
    next
      case True
      then have step: "put_search_right h l k a = put_search_right h l k b"
        using nx Some by (subst put_search_right.simps) simp
      have lb: "links h (b # zs)"
        using "1.prems"(1) sp(1) by (metis append_Cons links_append)
      have "length zs < length rest"
        using sp(1) by simp
      with "1.IH" lb sp(2) have "\<exists>a'. put_search_right h l k b = Some (Inr a') \<and> l < height h a'"
        by blast
      with step show ?thesis by simp
    qed
  qed
qed

text \<open>
  Claim C5 fails on the code. The loop of \<open>Put\<close> starts at the top level of the head
  and writes \<open>n.nextNodes[l]\<close> there, but the new node has only \<open>randL + 1\<close> links. On
  every well-formed container, \<open>Put\<close> of a key that is not stored panics with an index
  out of range when the drawn level \<open>randL\<close> is below \<open>Level - 1\<close>.
\<close>

theorem Put_short_node_panics:
  fixes sl :: "('k::linorder, 'v) SkipList"
  assumes "skiplist sl ns" and "k \<notin> set (map fst (entries sl ns))"
    and "randLevel sl draws + 1 < Level sl"
  shows "Put sl k v draws = Some (Inl IndexOutOfRange)"
proof -
  define randL where "randL = randLevel sl draws"
  define n where "n = fresh sl"
  define h2 where "h2 = (heap sl)(n := newNode k v (replicate (randL + 1) None))"
  from assms(3) have lv: "Level sl \<noteq> 0" by simp
  then obtain h0 where h0: "head sl = Some h0"
    by (auto simp: Level_def split: option.splits)
  from assms(1) h0 have sk: "links (heap sl) (h0 # ns)" "n \<notin> set (h0 # ns)"
    by (auto simp: skiplist_def list_all_iff n_def)
  from assms(2) have "find (\<lambda>b. key (heap sl b) = k) ns = None"
    by (auto simp: find_None_iff entries_def)
  then have g: "get sl k = ok None"
    by (simp add: get_correct [OF assms(1)])
  from assms(3) have gr: "grow sl randL = Inr sl"
    by (subst grow.simps) (simp add: randL_def)
  from sk(2) have hh: "h2 h0 = heap sl h0"
    by (auto simp: h2_def)
  obtain l where l: "length (nextNodes (heap sl h0)) = Suc l" "randL + 1 \<le> l"
    using assms(3) h0 by (cases "length (nextNodes (heap sl h0))") (auto simp: Level_def randL_def)
  have l2: "links h2 (h0 # ns)"
    unfolding h2_def using sk links_upd_other [of n "h0 # ns" "heap sl"] by blast
  have "l < height h2 h0"
    using l(1) hh by (simp add: height_def)
  from put_search_right_links [OF l2 this, of k] obtain a' where
    a': "put_search_right h2 l k h0 = Some (Inr a')" "l < height h2 a'"
    by blast
  from a'(2) obtain p where p: "nxt h2 a' l = Inr p"
    by (simp add: nxt_def height_def)
  have "length (nextNodes (h2 n)) = randL + 1"
    by (simp add: h2_def newNode_def)
  with l(2) have sn: "set_nxt h2 n l p = Inl IndexOutOfRange"
    by (simp add: set_nxt_def)
  have pl: "put_loop h2 k n h0 (length (nextNodes (h2 h0))) = Some (Inl IndexOutOfRange)"
    unfolding hh l(1) using a'(1) p sn by (simp add: panic_def)
  have "Put sl k v draws = bindR (put_loop h2 k n h0 (length (nextNodes (h2 h0))))
      (\<lambda>h'. ok (sl\<lparr>heap := h2, fresh := Suc n\<rparr>\<lparr>heap := h'\<rparr>))"
    unfolding Put_def h2_def n_def randL_def
    using lv g gr [unfolded randL_def] h0 by (simp add: Let_def)
  then show ?thesis
    unfolding pl by simp
qed

theorem Put_short_node_panics_witness:
  "skiplist example2 [1] \<and> (20::int) \<notin> set (map fst (entries example2 [1])) \<and>
   randLevel example2 (\<lambda>_. 1) + 1 < Level example2 \<and>
   Put example2 20 7 (\<lambda>_. 1) = Some (Inl IndexOutOfRange)"
proof -
  have h: "skiplist example2 [1]"
    by (simp add: skiplist_def example2_def height_def first_at_def)
  have m: "(20::int) \<notin> set (map fst (entries example2 [1]))"
    by (simp add: entries_def example2_def)
  have r: "randLevel example2 (\<lambda>_. 1) + 1 < Level example2"
    by (simp add: randLevel_def Level_def example2_def)
  from Put_short_node_panics [OF h m r] h m r show ?thesis
    by simp
qed

subsection \<open>Del keeps the container well formed\<close>

lemma del_loop_no_match:
  "descend h k a n = ok (Bottom a') \<Longrightarrow> del_loop h k a n = ok h"
proof (induction n arbitrary: a)
  case 0
  then show ?case by simp
next
  case (Suc l)
  then show ?case
    by (auto simp: bindR_def ok_def panic_def split: option.splits sum.splits if_splits)
qed

lemma cut_dif_empty_levels:
  "\<exists>c. cut_dif ns n d = d + c \<and> c \<le> n \<and> (\<forall>l. n - c \<le> l \<and> l < n \<longrightarrow> ns ! l = None)"
proof (induction n arbitrary: d)
  case 0
  then show ?case by simp
next
  case (Suc n)
  show ?case
  proof (cases "ns ! n = None")
    case False
    then have "cut_dif ns (Suc n) d = d + 0 \<and> 0 \<le> Suc n \<and>
        (\<forall>l. Suc n - 0 \<le> l \<and> l < Suc n \<longrightarrow> ns ! l = None)"
      by auto
    then show ?thesis by blast
  next
    case True
    from Suc.IH [of "Suc d"] obtain c where
      c: "cut_dif ns n (Suc d) = Suc d + c" "c \<le> n" "\<forall>l. n - c \<le> l \<and> l < n \<longrightarrow> ns ! l = None"
      by blast
    have "\<forall>l. Suc n - Suc c \<le> l \<and> l < Suc n \<longrightarrow> ns ! l = None"
      using c(3) True by (auto simp: less_Suc_eq)
    with c True have "cut_dif ns (Suc n) d = d + Suc c \<and> Suc c \<le> Suc n \<and>
        (\<forall>l. Suc n - Suc c \<le> l \<and> l < Suc n \<longrightarrow> ns ! l = None)"
      by simp
    then show ?thesis by blast
  qed
qed

text \<open>
  \<open>Del\<close> of a key that is not stored returns normally: no link of a node changes, the
  head loses the levels on which no node stands, and the container stays well formed
  with the same entries.
\<close>

lemma Del_absent_key:
  fixes sl :: "('k::linorder, 'v) SkipList"
  assumes "skiplist sl ns" and "k \<notin> set (map fst (entries sl ns))"
  shows "\<exists>sl'. Del sl k = Some (Inr sl') \<and> skiplist sl' ns \<and> entries sl' ns = entries sl ns \<and>
           (\<forall>a. a \<in> set ns \<longrightarrow> heap sl' a = heap sl a)"
proof (cases "Level sl = 0")
  case True
  with assms(1) show ?thesis by (simp add: Del_def ok_def)
next
  case False
  define h where "h = heap sl"
  from False obtain h0 where h0: "head sl = Some h0"
    by (auto simp: Level_def split: option.splits)
  define L where "L = height h h0"
  define ns0 where "ns0 = nextNodes (h h0)"
  define dif where "dif = cut_dif ns0 (length ns0) 0"
  define m where "m = length ns0 - dif"
  define h' where "h' = h(h0 := (h h0)\<lparr>nextNodes := take m ns0\<rparr>)"
  from assms(1) h0 have sk: "links h (h0 # ns)" "sorted_wrt (<) (keys_of h ns)"
    "h0 \<notin> set ns" "h0 < fresh sl" "\<forall>a\<in>set ns. a < fresh sl"
    "\<forall>b\<in>set ns. 0 < height h b \<and> height h b \<le> L"
    by (auto simp: skiplist_def list_all_iff h_def L_def)
  from assms(2) have nf: "find (\<lambda>b. key (h b) = k) ns = None"
    by (auto simp: find_None_iff entries_def h_def)
  then have g: "get sl k = ok None"
    unfolding h_def by (simp only: get_correct [OF assms(1)])
  have "descend h k h0 (height h h0) = ok (walk_result h k h0 ns)"
    using sk unfolding L_def by (intro descend_links) auto
  with nf have "del_loop h k h0 (height h h0) = ok h"
    by (auto simp: walk_result_def intro: del_loop_no_match)
  then have dl: "del_loop (heap sl) k h0 (length (nextNodes (heap sl h0))) = ok (heap sl)"
    by (simp add: height_def h_def)
  have del: "Del sl k = Some (Inr (sl\<lparr>heap := h'\<rparr>))"
    using False g h0 dl
    by (simp add: Del_def Let_def ok_def h'_def m_def dif_def ns0_def h_def)
  have len: "length ns0 = L"
    by (simp add: ns0_def L_def height_def)
  from cut_dif_empty_levels [of ns0 "length ns0" 0] obtain c where
    c: "dif = c" "c \<le> L" "\<forall>l. L - c \<le> l \<and> l < L \<longrightarrow> ns0 ! l = None"
    unfolding dif_def len by auto
  then have mL: "m \<le> L" "m = L - c"
    by (simp_all add: m_def len)
  from sk(1) have hd: "ns0 = map (\<lambda>l. first_at h l ns) [0..<L]"
    by (simp add: ns0_def L_def)
  have other: "\<And>a. a \<in> set ns \<Longrightarrow> h' a = h a"
    using sk(3) by (auto simp: h'_def)
  have hg: "\<And>a. a \<in> set ns \<Longrightarrow> height h' a = height h a"
    using other by (simp add: height_def)
  have hg0: "height h' h0 = m"
    using mL(1) len by (simp add: h'_def height_def)
  have fa: "\<And>l. first_at h' l ns = first_at h l ns"
    unfolding h'_def using sk(3) by (rule first_at_upd_other)
  have "take m ns0 = map (\<lambda>l. first_at h l ns) [0..<m]"
    unfolding hd using mL(1) by (simp add: take_map min_def)
  then have l0: "nextNodes (h' h0) = map (\<lambda>l. first_at h' l ns) [0..<height h' h0]"
    unfolding hg0 fa by (simp add: h'_def)
  have ln: "links h' ns"
    unfolding h'_def using sk(1,3) by (simp add: links_upd_other)
  have bound: "height h b \<le> m" if "b \<in> set ns" for b
  proof (cases "m < L")
    case False
    with sk(6) that mL show ?thesis by auto
  next
    case True
    with c(3) mL(2) have "ns0 ! m = None" by simp
    with True hd have "first_at h m ns = None" by simp
    with that have "\<not> m < height h b"
      by (auto simp: first_at_def find_None_iff)
    then show ?thesis by simp
  qed
  have ks: "keys_of h' ns = keys_of h ns"
    using other by simp
  have so: "sorted_wrt (<) (keys_of h' ns)"
    unfolding ks by (rule sk(2))
  have "skiplist (sl\<lparr>heap := h'\<rparr>) ns"
    using h0 sk(3-6) l0 ln so bound hg hg0
    by (simp add: skiplist_def list_all_iff)
  moreover have "entries (sl\<lparr>heap := h'\<rparr>) ns = entries sl ns"
    using other by (simp add: entries_def h_def)
  moreover have "\<forall>a. a \<in> set ns \<longrightarrow> heap (sl\<lparr>heap := h'\<rparr>) a = heap sl a"
    using other by (simp add: h_def)
  ultimately show ?thesis
    using del by blast
qed

lemma Del_stored_noop:
  fixes sl :: "('k::linorder, 'v) SkipList"
  assumes "skiplist sl ns" and "k \<in> set (map fst (entries sl ns))"
  shows "Del sl k = Some (Inr sl)"
proof -
  from assms(2) have "find (\<lambda>b. key (heap sl b) = k) ns \<noteq> None"
    by (auto simp: find_None_iff entries_def)
  moreover from assms(2) have "ns \<noteq> []"
    by (auto simp: entries_def)
  with assms(1) have "Level sl \<noteq> 0"
    by (auto dest: skiplist_level0)
  ultimately show ?thesis
    by (auto simp: Del_def get_correct [OF assms(1)] ok_def)
qed

text \<open>
  So \<open>Del\<close> returns normally on every well-formed container, for every key, and the
  container is well formed afterwards, satisfies the leveled subsequence invariant and
  has the same entries.
\<close>

lemma Del_preserves:
  fixes sl :: "('k::linorder, 'v) SkipList"
  assumes "skiplist sl ns"
  shows "\<exists>sl'. Del sl k = Some (Inr sl') \<and> skiplist sl' ns \<and> leveled sl' \<and>
           entries sl' ns = entries sl ns"
proof (cases "k \<in> set (map fst (entries sl ns))")
  case True
  with assms have "Del sl k = Some (Inr sl)" by (rule Del_stored_noop)
  with assms skiplist_leveled [OF assms] show ?thesis by simp
next
  case False
  from Del_absent_key [OF assms False] obtain sl' where
    "Del sl k = Some (Inr sl')" "skiplist sl' ns" "entries sl' ns = entries sl ns"
    by blast
  with skiplist_leveled [of sl' ns] show ?thesis by simp
qed

end
